theory Spec2Isabelle
  imports Main
begin

section \<open>Basic types\<close>

text \<open>
  An item is a \<^verbatim>\<open>void*\<close>: an address, with \<^verbatim>\<open>NULL\<close> the address 0. Mutexes,
  condition variables, OS threads and callbacks are known by an identity only.
  The header has two builds, chosen by \<^verbatim>\<open>USE_LIBUV\<close>: libuv handles are plain values
  that an assignment copies, the standard-library build holds its mutex and condition in a
  \<^verbatim>\<open>std::unique_ptr\<close> and its thread in a \<^verbatim>\<open>std::thread\<close>, which a move empties.
\<close>

type_synonym ptr = nat
type_synonym handle = nat
type_synonym tid = nat
type_synonym callback = nat

definition NULL :: ptr where
  "NULL = 0"

datatype build = LibUV | StdThread

fun opt_list :: "'a option \<Rightarrow> 'a list" where
  "opt_list None = []"
| "opt_list (Some h) = [h]"

section \<open>ThreadMessageQueue\<close>

text \<open>
  The calls a queue operation makes on its mutex and condition variable, and the accesses
  to the underlying \<^verbatim>\<open>std::queue\<close>, are recorded in the order the code makes them, in
  the field \<open>hist\<close>; the other four fields are the members of the class.
\<close>

datatype 'a qevent = MutexLock | MutexUnlock | CondSignal | QPush 'a | QPop 'a

record 'a ThreadMessageQueue =
  q :: "'a list"
  mutex :: "handle option"
  cond :: "handle option"
  skipDestructor :: bool
  hist :: "'a qevent list"

datatype destroyed = MutexDestroy handle | CondDestroy handle

definition mutex_lock :: "'a ThreadMessageQueue \<Rightarrow> 'a ThreadMessageQueue" where
  "mutex_lock Q = Q\<lparr>hist := hist Q @ [MutexLock]\<rparr>"

definition mutex_unlock :: "'a ThreadMessageQueue \<Rightarrow> 'a ThreadMessageQueue" where
  "mutex_unlock Q = Q\<lparr>hist := hist Q @ [MutexUnlock]\<rparr>"

definition condvar_signal :: "'a ThreadMessageQueue \<Rightarrow> 'a ThreadMessageQueue" where
  "condvar_signal Q = Q\<lparr>hist := hist Q @ [CondSignal]\<rparr>"

text \<open>\<^verbatim>\<open>q.push(item)\<close> and \<^verbatim>\<open>q.front(); q.pop()\<close> of the \<^verbatim>\<open>std::queue\<close>.\<close>

definition q_push :: "'a \<Rightarrow> 'a ThreadMessageQueue \<Rightarrow> 'a ThreadMessageQueue" where
  "q_push item Q = Q\<lparr>q := q Q @ [item], hist := hist Q @ [QPush item]\<rparr>"

definition q_pop :: "'a \<Rightarrow> 'a list \<Rightarrow> 'a ThreadMessageQueue \<Rightarrow> 'a ThreadMessageQueue" where
  "q_pop item rest Q = Q\<lparr>q := rest, hist := hist Q @ [QPop item]\<rparr>"

text \<open>The constructor: \<open>m\<close> and \<open>c\<close> are the mutex and the condition it creates.\<close>

definition ThreadMessageQueue_new :: "handle \<Rightarrow> handle \<Rightarrow> 'a ThreadMessageQueue" where
  "ThreadMessageQueue_new m c =
     \<lparr>q = [], mutex = Some m, cond = Some c, skipDestructor = False, hist = []\<rparr>"

definition push :: "'a \<Rightarrow> 'a ThreadMessageQueue \<Rightarrow> 'a ThreadMessageQueue" where
  "push item Q = mutex_unlock (condvar_signal (q_push item (mutex_lock Q)))"

definition push_multi :: "'a list \<Rightarrow> 'a ThreadMessageQueue \<Rightarrow> 'a ThreadMessageQueue" where
  "push_multi list Q = mutex_unlock (condvar_signal (fold q_push list (mutex_lock Q)))"

text \<open>
  \<open>pop\<close> waits on the condition while the queue is empty: on an empty queue it has no
  result (\<open>None\<close>) until another thread pushes.
\<close>

definition pop :: "'a ThreadMessageQueue \<Rightarrow> ('a \<times> 'a ThreadMessageQueue) option" where
  "pop Q =
     (let Q1 = mutex_lock Q in
      case q Q1 of
        [] \<Rightarrow> None
      | item # rest \<Rightarrow> Some (item, mutex_unlock (q_pop item rest Q1)))"

text \<open>
  \<open>trypop\<close> takes what \<^verbatim>\<open>*item\<close> holds before the call and returns the flag, what
  \<^verbatim>\<open>*item\<close> holds after it, and the queue.
\<close>

definition trypop :: "'a \<Rightarrow> 'a ThreadMessageQueue \<Rightarrow> bool \<times> 'a \<times> 'a ThreadMessageQueue" where
  "trypop item Q =
     (let Q1 = mutex_lock Q;
          notEmpty = (q Q1 \<noteq> [])
      in case q Q1 of
           [] \<Rightarrow> (notEmpty, item, mutex_unlock Q1)
         | x # rest \<Rightarrow> (notEmpty, x, mutex_unlock (q_pop x rest Q1)))"

definition size_q :: "'a ThreadMessageQueue \<Rightarrow> nat \<times> 'a ThreadMessageQueue" where
  "size_q Q = (let Q1 = mutex_lock Q; s = length (q Q1) in (s, mutex_unlock Q1))"

definition empty_q :: "'a ThreadMessageQueue \<Rightarrow> bool \<times> 'a ThreadMessageQueue" where
  "empty_q Q = (let Q1 = mutex_lock Q; e = (q Q1 = []) in (e, mutex_unlock Q1))"

text \<open>
  \<open>move\<close> acts on two distinct objects, \<^verbatim>\<open>*this\<close> and \<open>other\<close>, and returns both.
  In the standard-library build the assignment to a \<^verbatim>\<open>unique_ptr\<close> deletes what
  \<^verbatim>\<open>*this\<close> held before and leaves the source null; the third component lists what is
  deleted that way. The moved-from \<^verbatim>\<open>std::queue\<close> is left empty.
\<close>

definition move_q ::
  "build \<Rightarrow> 'a ThreadMessageQueue \<Rightarrow> 'a ThreadMessageQueue \<Rightarrow>
     'a ThreadMessageQueue \<times> 'a ThreadMessageQueue \<times> destroyed list" where
  "move_q b T other =
     (case b of
        LibUV \<Rightarrow>
          (T\<lparr>q := q other, mutex := mutex other, cond := cond other, skipDestructor := False\<rparr>,
           other\<lparr>q := [], skipDestructor := True\<rparr>,
           [])
      | StdThread \<Rightarrow>
          (T\<lparr>q := q other, mutex := mutex other, cond := cond other, skipDestructor := False\<rparr>,
           other\<lparr>q := [], mutex := None, cond := None, skipDestructor := True\<rparr>,
           map MutexDestroy (opt_list (mutex T)) @ map CondDestroy (opt_list (cond T))))"


section \<open>Interleaved histories and the mutex\<close>

text \<open>
  A global history tags each event with the thread that makes it. The mutex admits a
  \<open>MutexLock\<close> only while nobody holds it and a \<open>MutexUnlock\<close> only from its holder
  (\<open>sched_ok\<close>, started with the current holder). A thread's own events are \<open>bracketed\<close>
  when each access to the queue and each signal lies between a lock and the next unlock
  of that thread, as in every operation above.
\<close>

fun sched_ok :: "tid option \<Rightarrow> (tid \<times> 'a qevent) list \<Rightarrow> bool" where
  "sched_ok h [] = True"
| "sched_ok h ((t, MutexLock) # G) = (h = None \<and> sched_ok (Some t) G)"
| "sched_ok h ((t, MutexUnlock) # G) = (h = Some t \<and> sched_ok None G)"
| "sched_ok h ((t, e) # G) = sched_ok h G"

fun bracketed :: "bool \<Rightarrow> 'a qevent list \<Rightarrow> bool" where
  "bracketed i [] = True"
| "bracketed i (MutexLock # es) = (\<not> i \<and> bracketed True es)"
| "bracketed i (MutexUnlock # es) = (i \<and> bracketed False es)"
| "bracketed i (e # es) = (i \<and> bracketed i es)"

definition proj :: "tid \<Rightarrow> (tid \<times> 'a qevent) list \<Rightarrow> 'a qevent list" where
  "proj t G = map snd (filter (\<lambda>p. fst p = t) G)"

text \<open>The events one call appends to the history of the queue it is made on.\<close>

definition events_of ::
  "('a ThreadMessageQueue \<Rightarrow> 'a ThreadMessageQueue) \<Rightarrow> 'a ThreadMessageQueue \<Rightarrow> 'a qevent list" where
  "events_of f Q = drop (length (hist Q)) (hist (f Q))"

section \<open>MessageThread\<close>

record MessageThread =
  mt_q :: "ptr ThreadMessageQueue"
  thread :: "tid option"
  threadActive :: bool
  threadCreated :: bool
  cb :: "callback option"
  lowPrio :: bool

text \<open>
  The two constructors (\<^verbatim>\<open>cb = NULL\<close> is \<open>None\<close>); \<open>m\<close> and \<open>c\<close> are the mutex and the
  condition the member queue creates.
\<close>

definition MessageThread_new_cb :: "handle \<Rightarrow> handle \<Rightarrow> callback option \<Rightarrow> MessageThread" where
  "MessageThread_new_cb m c callback =
     \<lparr>mt_q = ThreadMessageQueue_new m c, thread = None, threadActive = False,
      threadCreated = False, cb = callback, lowPrio = False\<rparr>"

definition MessageThread_new :: "handle \<Rightarrow> handle \<Rightarrow> MessageThread" where
  "MessageThread_new m c = MessageThread_new_cb m c None"

definition setCallback :: "callback option \<Rightarrow> MessageThread \<Rightarrow> MessageThread" where
  "setCallback callback M = M\<lparr>cb := callback\<rparr>"

definition end_mt :: "MessageThread \<Rightarrow> MessageThread" where
  "end_mt M =
     (if threadActive M then M\<lparr>mt_q := push NULL (mt_q M), threadActive := False\<rparr> else M)"

definition size_mt :: "MessageThread \<Rightarrow> nat \<times> MessageThread" where
  "size_mt M = (case size_q (mt_q M) of (s, Q') \<Rightarrow> (s, M\<lparr>mt_q := Q'\<rparr>))"

definition empty_mt :: "MessageThread \<Rightarrow> bool \<times> MessageThread" where
  "empty_mt M = (case empty_q (mt_q M) of (e, Q') \<Rightarrow> (e, M\<lparr>mt_q := Q'\<rparr>))"

text \<open>
  An operation that touches OS threads can complete (\<open>Ok\<close>), wait for another thread
  (\<open>Blocks\<close>), or leave defined behaviour (\<open>Abort\<close>: assigning to, or destroying, a
  \<^verbatim>\<open>std::thread\<close> that is still joinable calls \<^verbatim>\<open>std::terminate\<close>; joining a handle
  that holds no joinable thread throws or is undefined).
\<close>

datatype 'a result = Ok 'a | Blocks | Abort

fun rbind :: "'a result \<Rightarrow> ('a \<Rightarrow> 'b result) \<Rightarrow> 'b result" where
  "rbind (Ok x) f = f x"
| "rbind Blocks f = Blocks"
| "rbind Abort f = Abort"

text \<open>
  \<open>move\<close> of a MessageThread, on two distinct objects. \<^verbatim>\<open>lowPrio\<close> is not assigned.
\<close>

definition move_mt ::
  "build \<Rightarrow> MessageThread \<Rightarrow> MessageThread \<Rightarrow>
     (MessageThread \<times> MessageThread \<times> destroyed list) result" where
  "move_mt b M other =
     (case move_q b (mt_q M) (mt_q other) of (Tq, Oq, freed) \<Rightarrow>
        if b = StdThread \<and> thread M \<noteq> None then Abort
        else Ok (M\<lparr>mt_q := Tq, thread := thread other, threadActive := threadActive other,
                   threadCreated := threadCreated other, cb := cb other\<rparr>,
                 other\<lparr>mt_q := Oq, thread := (if b = StdThread then None else thread other),
                       threadActive := False, threadCreated := False\<rparr>,
                 freed))"

section \<open>OS threads and the consumer loop\<close>

text \<open>
  The world of one MessageThread object, at its fixed address: the object, every OS thread
  it has created so far (a thread's identity is its index; each runs on this object, the
  \<^verbatim>\<open>parent\<close> it was given), and the callback invocations \<^verbatim>\<open>cb(item)\<close> made so far, in
  order, each with the thread that made it. \<open>tcb\<close> is the local \<^verbatim>\<open>cb\<close> of \<^verbatim>\<open>thread_func\<close>:
  \<open>None\<close> until the thread has executed \<^verbatim>\<open>auto cb = self->cb\<close>, and from then on the copy
  it took. \<open>low_prio\<close> tells whether the thread entered through \<^verbatim>\<open>thread_func_low_prio\<close>.
  What a callback does is outside this header: an invocation of a callback is recorded and
  taken to return. Calling the empty callback (\<^verbatim>\<open>cb = NULL\<close>) leaves defined behaviour.
\<close>

datatype tstate = Running | Exited | Joined

record osthread =
  status :: tstate
  tcb :: "callback option option"
  low_prio :: bool

record world =
  obj :: MessageThread
  threads :: "osthread list"
  calls :: "(tid \<times> callback \<times> ptr) list"

definition world_new :: "MessageThread \<Rightarrow> world" where
  "world_new M = \<lparr>obj = M, threads = [], calls = []\<rparr>"

definition set_status :: "tid \<Rightarrow> tstate \<Rightarrow> world \<Rightarrow> world" where
  "set_status t st W = W\<lparr>threads := (threads W)[t := (threads W ! t)\<lparr>status := st\<rparr>]\<rparr>"

definition thread_join :: "build \<Rightarrow> world \<Rightarrow> world result" where
  "thread_join b W =
     (case thread (obj W) of
        None \<Rightarrow> Abort
      | Some t \<Rightarrow>
          if t < length (threads W) then
            (case status (threads W ! t) of
               Running \<Rightarrow> Blocks
             | Exited \<Rightarrow>
                 Ok ((set_status t Joined W)
                       \<lparr>obj := (if b = StdThread then (obj W)\<lparr>thread := None\<rparr> else obj W)\<rparr>)
             | Joined \<Rightarrow> Abort)
          else Abort)"

text \<open>
  The thread \<^verbatim>\<open>thread_create\<close> starts: the entry point is chosen by \<^verbatim>\<open>lowPrio\<close> in
  \<open>start\<close>, by the caller; the thread has not run yet, so it has not read \<^verbatim>\<open>self->cb\<close>.
\<close>

definition new_thread :: "world \<Rightarrow> osthread" where
  "new_thread W = \<lparr>status = Running, tcb = None, low_prio = lowPrio (obj W)\<rparr>"

definition thread_create :: "build \<Rightarrow> world \<Rightarrow> world result" where
  "thread_create b W =
     (if b = StdThread \<and> thread (obj W) \<noteq> None then Abort
      else Ok (W\<lparr>threads := threads W @ [new_thread W],
                 obj := (obj W)\<lparr>thread := Some (length (threads W))\<rparr>\<rparr>))"

definition start :: "build \<Rightarrow> world \<Rightarrow> world result" where
  "start b W =
     (if threadActive (obj W) then Ok W
      else
        let W1 = W\<lparr>obj := (obj W)\<lparr>threadActive := True\<rparr>\<rparr> in
        rbind (if threadCreated (obj W1) then thread_join b W1 else Ok W1)
          (\<lambda>W2. thread_create b (W2\<lparr>obj := (obj W2)\<lparr>threadCreated := True\<rparr>\<rparr>)))"

definition send :: "build \<Rightarrow> ptr \<Rightarrow> world \<Rightarrow> world result" where
  "send b item W =
     rbind (start b W) (\<lambda>W1. Ok (W1\<lparr>obj := (obj W1)\<lparr>mt_q := push item (mt_q (obj W1))\<rparr>\<rparr>))"

definition send_multi :: "build \<Rightarrow> ptr list \<Rightarrow> world \<Rightarrow> world result" where
  "send_multi b items W =
     rbind (start b W)
       (\<lambda>W1. Ok (W1\<lparr>obj := (obj W1)\<lparr>mt_q := push_multi items (mt_q (obj W1))\<rparr>\<rparr>))"

text \<open>
  \<^verbatim>\<open>thread_func\<close>, run by thread \<open>t\<close>. \<open>take_cb\<close> is its statement \<^verbatim>\<open>auto cb = self->cb\<close>:
  the thread reads the callback the object holds at that moment and keeps the copy.
  \<open>loop_round\<close> is one round of the loop: \<^verbatim>\<open>item = q.pop()\<close>, the test against \<^verbatim>\<open>NULL\<close>,
  and either \<^verbatim>\<open>cb(item)\<close> on the copy or the end of the thread; it waits while the queue is
  empty.
\<close>

definition take_cb :: "tid \<Rightarrow> world \<Rightarrow> world" where
  "take_cb t W = W\<lparr>threads := (threads W)[t := (threads W ! t)\<lparr>tcb := Some (cb (obj W))\<rparr>]\<rparr>"

definition loop_round :: "tid \<Rightarrow> world \<Rightarrow> world result" where
  "loop_round t W =
     (case pop (mt_q (obj W)) of
        None \<Rightarrow> Blocks
      | Some (item, Q') \<Rightarrow>
          let W1 = W\<lparr>obj := (obj W)\<lparr>mt_q := Q'\<rparr>\<rparr> in
          if item \<noteq> NULL then
            (case tcb (threads W ! t) of
               Some (Some f) \<Rightarrow> Ok (W1\<lparr>calls := calls W1 @ [(t, f, item)]\<rparr>)
             | _ \<Rightarrow> Abort)
          else Ok (set_status t Exited W1))"

text \<open>
  One turn of thread \<open>t\<close>. The first turn of a thread takes the copy of the callback, so
  a \<open>setCallback\<close> made after \<open>start\<close> and before that turn is the one the thread calls,
  and goes on with a round of the loop; if that round has to wait, the turn has still
  taken the copy. Every later turn is a round of the loop. A thread that is not running,
  or that waits in \<open>pop\<close> with its copy taken, makes no step. Nothing is lost by taking the
  copy and the first round in one turn: the calls made on the object in between do not
  read the copy, and the round reads of the object only the head of the queue, which
  those calls leave in place.
\<close>

definition thread_func_step :: "tid \<Rightarrow> world \<Rightarrow> world result" where
  "thread_func_step t W =
     (if t < length (threads W) \<and> status (threads W ! t) = Running then
        (case tcb (threads W ! t) of
           None \<Rightarrow>
             (case loop_round t (take_cb t W) of
                Blocks \<Rightarrow> Ok (take_cb t W)
              | r \<Rightarrow> r)
         | Some f \<Rightarrow> loop_round t W)
      else Blocks)"



section \<open>Schedules\<close>

text \<open>
  The calls made on the object (one at a time, as the flags are not protected) interleave
  with the turns of the worker threads in any order a schedule lists. \<open>start\<close> and \<open>send\<close>
  are enabled once their join can return. \<open>Push\<close> is the second statement of \<open>send\<close>,
  \<^verbatim>\<open>q.push(item)\<close>, on its own: a producer that has passed \<open>start\<close> reaches it whenever it is
  scheduled, also after another caller's \<open>end\<close>. \<open>MoveAssign m c callback\<close> is the
  move-assignment \<^verbatim>\<open>obj = MessageThread(callback)\<close> onto the object from a newly
  constructed one, whose queue made the mutex \<open>m\<close> and the condition \<open>c\<close>; the object stays
  where it is, so the threads it created still run on it, and the destructor of the
  moved-from temporary finds both flags false and \<open>skipDestructor\<close> set.
\<close>

datatype action =
    Start | Send ptr | SendMulti "ptr list" | End | SetCallback "callback option"
  | SetLowPrio bool | Push ptr | Work tid | MoveAssign handle handle "callback option"

fun step :: "build \<Rightarrow> action \<Rightarrow> world \<Rightarrow> world result" where
  "step b Start W = start b W"
| "step b (Send item) W = send b item W"
| "step b (SendMulti items) W = send_multi b items W"
| "step b End W = Ok (W\<lparr>obj := end_mt (obj W)\<rparr>)"
| "step b (SetCallback c) W = Ok (W\<lparr>obj := setCallback c (obj W)\<rparr>)"
| "step b (SetLowPrio l) W = Ok (W\<lparr>obj := (obj W)\<lparr>lowPrio := l\<rparr>\<rparr>)"
| "step b (Push item) W = Ok (W\<lparr>obj := (obj W)\<lparr>mt_q := push item (mt_q (obj W))\<rparr>\<rparr>)"
| "step b (Work t) W = thread_func_step t W"
| "step b (MoveAssign m c callback) W =
     (case move_mt b (obj W) (MessageThread_new_cb m c callback) of
        Ok (M', O', freed) \<Rightarrow> Ok (W\<lparr>obj := M'\<rparr>)
      | Blocks \<Rightarrow> Blocks
      | Abort \<Rightarrow> Abort)"

fun exec :: "build \<Rightarrow> action list \<Rightarrow> world \<Rightarrow> world result" where
  "exec b [] W = Ok W"
| "exec b (a # as) W = rbind (step b a W) (exec b as)"

fun is_work :: "action \<Rightarrow> bool" where
  "is_work (Work t) = True"
| "is_work a = False"

definition owner_calls :: "action list \<Rightarrow> action list" where
  "owner_calls sched = filter (\<lambda>a. \<not> is_work a) sched"

definition unjoined :: "world \<Rightarrow> nat" where
  "unjoined W = length (filter (\<lambda>th. status th \<noteq> Joined) (threads W))"

text \<open>
  The state of a run in which the items \<open>done\<close> have been sent, \<open>end\<close> has been called
  or not (\<open>ended\<close>), and the items \<open>after\<close> have been pushed after it: the worker has
  invoked the callback on a first part of \<open>done\<close> (with the copy it took of the callback of
  the object, unless it has not had a turn yet), and the queue holds the rest, then the
  sentinel of \<open>end\<close>, then \<open>after\<close>; or the worker has exited at the sentinel.
\<close>

definition delivering ::
  "callback \<Rightarrow> ptr list \<Rightarrow> bool \<Rightarrow> ptr list \<Rightarrow> world \<Rightarrow> bool" where
  "delivering cbk done ended after W \<longleftrightarrow>
     cb (obj W) = Some cbk \<and>
     (if done = [] then
        threads W = [] \<and> calls W = [] \<and> q (mt_q (obj W)) = after \<and>
        \<not> threadActive (obj W) \<and> \<not> threadCreated (obj W) \<and> thread (obj W) = None
      else
        threadCreated (obj W) \<and> threadActive (obj W) = (\<not> ended) \<and> thread (obj W) = Some 0 \<and>
        (\<exists>zs us th. done = zs @ us \<and> calls W = map (\<lambda>x. (0, cbk, x)) zs \<and>
           threads W = [th] \<and> (tcb th = None \<and> zs = [] \<or> tcb th = Some (Some cbk)) \<and>
           (status th = Running \<and>
              q (mt_q (obj W)) = us @ (if ended then NULL # after else [])
            \<or> ended \<and> status th = Exited \<and> us = [] \<and> q (mt_q (obj W)) = after)))"

section \<open>ThreadNotifyQueue (libuv build)\<close>

text \<open>
  \<open>a_pending\<close> is the state of the \<^verbatim>\<open>uv_async_t\<close>: whether a wakeup has been requested
  and not yet served. \<open>notified\<close> returns the invocations of the bound method it makes, in
  order; \<open>junk\<close> is what the uninitialised local \<^verbatim>\<open>notification\<close> holds.
\<close>

record ThreadNotifyQueue =
  tnq_q :: "ptr ThreadMessageQueue"
  a_pending :: bool
  tnq_o :: nat
  tnq_cb :: callback

definition ThreadNotifyQueue_new :: "handle \<Rightarrow> handle \<Rightarrow> nat \<Rightarrow> callback \<Rightarrow> ThreadNotifyQueue" where
  "ThreadNotifyQueue_new m c object callback =
     \<lparr>tnq_q = ThreadMessageQueue_new m c, a_pending = False, tnq_o = object, tnq_cb = callback\<rparr>"

definition notify :: "ptr \<Rightarrow> ThreadNotifyQueue \<Rightarrow> ThreadNotifyQueue" where
  "notify item N = (N\<lparr>tnq_q := push item (tnq_q N)\<rparr>)\<lparr>a_pending := True\<rparr>"

function notified ::
  "ptr \<Rightarrow> ThreadNotifyQueue \<Rightarrow> (nat \<times> callback \<times> ptr) list \<Rightarrow>
     ThreadNotifyQueue \<times> (nat \<times> callback \<times> ptr) list" where
  "notified junk N made =
     (case trypop junk (tnq_q N) of
        (True, notification, Q') \<Rightarrow>
          notified notification (N\<lparr>tnq_q := Q'\<rparr>) (made @ [(tnq_o N, tnq_cb N, notification)])
      | (False, notification, Q') \<Rightarrow> (N\<lparr>tnq_q := Q'\<rparr>, made))"
  by pat_completeness auto
termination
  by (relation "measure (\<lambda>(junk, N, made). length (q (tnq_q N)))")
     (auto simp: trypop_def Let_def mutex_lock_def mutex_unlock_def q_pop_def split: list.splits)

declare notified.simps [simp del]

section \<open>Properties of the queue\<close>

lemma q_mutex_lock [simp]: "q (mutex_lock Q) = q Q"
  by (simp add: mutex_lock_def)

lemma q_mutex_unlock [simp]: "q (mutex_unlock Q) = q Q"
  by (simp add: mutex_unlock_def)

lemma q_condvar_signal [simp]: "q (condvar_signal Q) = q Q"
  by (simp add: condvar_signal_def)

lemma q_q_push [simp]: "q (q_push item Q) = q Q @ [item]"
  by (simp add: q_push_def)

lemma q_q_pop [simp]: "q (q_pop item rest Q) = rest"
  by (simp add: q_pop_def)

lemma q_push [simp]: "q (push item Q) = q Q @ [item]"
  by (simp add: push_def)

text \<open>
  C2. \<open>trypop\<close> always returns (it is a total function with no waiting branch). On an
  empty queue the flag is false, \<^verbatim>\<open>*item\<close> is left as it was and the queue's members are
  unchanged; on a queue \<open>x # rest\<close> the flag is true, \<^verbatim>\<open>*item\<close> is the head \<open>x\<close>, and the
  queue holds exactly \<open>rest\<close>, in order; the lock taken is released in both cases.
\<close>

theorem trypop_total_head:
  "(q Q = [] \<longrightarrow>
      (\<exists>Q'. trypop item Q = (False, item, Q') \<and> q Q' = [] \<and> mutex Q' = mutex Q \<and>
            cond Q' = cond Q \<and> skipDestructor Q' = skipDestructor Q \<and>
            hist Q' = hist Q @ [MutexLock, MutexUnlock])) \<and>
   (\<forall>x rest. q Q = x # rest \<longrightarrow>
      (\<exists>Q'. trypop item Q = (True, x, Q') \<and> q Q' = rest \<and> mutex Q' = mutex Q \<and>
            cond Q' = cond Q \<and> skipDestructor Q' = skipDestructor Q \<and>
            hist Q' = hist Q @ [MutexLock, QPop x, MutexUnlock]))"
  by (simp add: trypop_def mutex_lock_def mutex_unlock_def q_pop_def)

theorem trypop_total_head_witness:
  "trypop (0::nat) ((ThreadMessageQueue_new 1 2 :: nat ThreadMessageQueue)\<lparr>q := []\<rparr>)
     = (False, 0, (ThreadMessageQueue_new 1 2)\<lparr>hist := [MutexLock, MutexUnlock]\<rparr>) \<and>
   fst (trypop (0::nat) (push 8 (push 7 (ThreadMessageQueue_new 1 2)))) = True \<and>
   fst (snd (trypop (0::nat) (push 8 (push 7 (ThreadMessageQueue_new 1 2))))) = 7 \<and>
   q (snd (snd (trypop (0::nat) (push 8 (push 7 (ThreadMessageQueue_new 1 2)))))) = [8]"
proof -
  let ?E = "(ThreadMessageQueue_new 1 2 :: nat ThreadMessageQueue)\<lparr>q := []\<rparr>"
  let ?P = "push 8 (push 7 (ThreadMessageQueue_new 1 2)) :: nat ThreadMessageQueue"
  have e: "q ?E = []" by simp
  have p: "q ?P = [7, 8]" by (simp add: ThreadMessageQueue_new_def)
  from trypop_total_head [of ?E 0] e
  obtain Q' where 1: "trypop 0 ?E = (False, 0, Q')" and "q Q' = []" "mutex Q' = mutex ?E"
    "cond Q' = cond ?E" "skipDestructor Q' = skipDestructor ?E"
    "hist Q' = hist ?E @ [MutexLock, MutexUnlock]" by blast
  then have "Q' = (ThreadMessageQueue_new 1 2)\<lparr>hist := [MutexLock, MutexUnlock]\<rparr>"
    by (simp add: ThreadMessageQueue_new_def)
  with 1 have a: "trypop 0 ?E = (False, 0, (ThreadMessageQueue_new 1 2)\<lparr>hist := [MutexLock, MutexUnlock]\<rparr>)"
    by simp
  from trypop_total_head [of ?P 0] p
  obtain Q'' where "trypop 0 ?P = (True, 7, Q'')" and "q Q'' = [8]" by blast
  with a show ?thesis by simp
qed

lemma fold_q_push: "fold q_push xs Q = Q\<lparr>q := q Q @ xs, hist := hist Q @ map QPush xs\<rparr>"
  by (induction xs arbitrary: Q) (simp_all add: q_push_def)

lemma push_multi_eq:
  "push_multi xs Q = Q\<lparr>q := q Q @ xs, hist := hist Q @ [MutexLock] @ map QPush xs @ [CondSignal, MutexUnlock]\<rparr>"
  by (simp add: push_multi_def fold_q_push mutex_lock_def mutex_unlock_def condvar_signal_def)

lemma push_eq:
  "push x Q = Q\<lparr>q := q Q @ [x], hist := hist Q @ [MutexLock, QPush x, CondSignal, MutexUnlock]\<rparr>"
  by (simp add: push_def q_push_def mutex_lock_def mutex_unlock_def condvar_signal_def)

text \<open>
  C7. \<open>push_multi\<close> appends the whole sequence to the tail in iteration order and leaves
  the other members alone. The events of one call are one lock, the pushes in order, one
  signal (whatever the number of items) and one unlock, so every push lies inside the
  critical section. In every interleaved history that the mutex admits and in which every
  thread keeps its queue accesses between its own lock and unlock, the events of the call
  are contiguous: between the call's lock and its unlock no event of another thread occurs.
\<close>

lemma proj_Cons: "proj u ((v, e) # G) = (if v = u then e # proj u G else proj u G)"
  by (simp add: proj_def)

lemma proj_append: "proj u (G @ H) = proj u G @ proj u H"
  by (simp add: proj_def)

lemma proj_all: "\<forall>p\<in>set B. fst p = t \<Longrightarrow> B = map (Pair t) (proj t B)"
  by (induction B) (auto simp: proj_def)

lemma section_own:
  "sched_ok (Some t) (B @ (t, MutexUnlock) # C) \<Longrightarrow>
   \<forall>u. bracketed (u = t) (proj u (B @ (t, MutexUnlock) # C)) \<Longrightarrow>
   (t, MutexUnlock) \<notin> set B \<Longrightarrow> \<forall>p\<in>set B. fst p = t"
proof (induction B)
  case Nil
  then show ?case by simp
next
  case (Cons p B)
  obtain u e where p: "p = (u, e)" by (cases p)
  show ?case
  proof (cases "u = t")
    case True
    with Cons.prems p have e: "e \<noteq> MutexUnlock" by auto
    from Cons.prems(1) p True e have ok: "sched_ok (Some t) (B @ (t, MutexUnlock) # C)"
      by (cases e) auto
    from Cons.prems(1) p True have nl: "e \<noteq> MutexLock" by auto
    have "\<forall>v. bracketed (v = t) (proj v (B @ (t, MutexUnlock) # C))"
    proof
      fix v
      from Cons.prems(2) have "bracketed (v = t) (proj v (p # B @ (t, MutexUnlock) # C))" by simp
      then show "bracketed (v = t) (proj v (B @ (t, MutexUnlock) # C))"
        using p True e nl by (cases e) (auto simp: proj_Cons split: if_splits)
    qed
    with Cons.IH ok Cons.prems(3) have "\<forall>p\<in>set B. fst p = t" by simp
    with p True show ?thesis by simp
  next
    case False
    from Cons.prems(2) have "bracketed (u = t) (proj u (p # B @ (t, MutexUnlock) # C))" by simp
    with p False have "bracketed False (e # proj u (B @ (t, MutexUnlock) # C))"
      by (simp add: proj_Cons)
    moreover from Cons.prems(1) p have "e \<noteq> MutexLock" by auto
    ultimately have False by (cases e) auto
    then show ?thesis ..
  qed
qed

lemma prefix_state:
  "sched_ok h (A @ R) \<Longrightarrow> \<forall>u. bracketed (h = Some u) (proj u (A @ R)) \<Longrightarrow>
   \<exists>h'. sched_ok h' R \<and> (\<forall>u. bracketed (h' = Some u) (proj u R))"
proof (induction A arbitrary: h)
  case Nil
  then show ?case by auto
next
  case (Cons p A)
  obtain v e where p: "p = (v, e)" by (cases p)
  have br: "\<And>u. bracketed (h = Some u) (proj u (p # A @ R))"
    using Cons.prems(2) by simp
  show ?case
  proof (cases e)
    case MutexLock
    with Cons.prems(1) p have h: "h = None" and ok: "sched_ok (Some v) (A @ R)" by auto
    have "\<forall>u. bracketed (Some v = Some u) (proj u (A @ R))"
    proof
      fix u
      from br [of u] show "bracketed (Some v = Some u) (proj u (A @ R))"
        using p MutexLock h by (auto simp: proj_Cons split: if_splits)
    qed
    with Cons.IH ok show ?thesis by blast
  next
    case MutexUnlock
    with Cons.prems(1) p have h: "h = Some v" and ok: "sched_ok None (A @ R)" by auto
    have "\<forall>u. bracketed (None = Some u) (proj u (A @ R))"
    proof
      fix u
      from br [of u] show "bracketed (None = Some u) (proj u (A @ R))"
        using p MutexUnlock h by (auto simp: proj_Cons split: if_splits)
    qed
    with Cons.IH ok show ?thesis by blast
  next
    case CondSignal
    with Cons.prems(1) p have ok: "sched_ok h (A @ R)" by auto
    have "\<forall>u. bracketed (h = Some u) (proj u (A @ R))"
    proof
      fix u
      from br [of u] show "bracketed (h = Some u) (proj u (A @ R))"
        using p CondSignal by (auto simp: proj_Cons split: if_splits)
    qed
    with Cons.IH ok show ?thesis by blast
  next
    case (QPush x)
    with Cons.prems(1) p have ok: "sched_ok h (A @ R)" by auto
    have "\<forall>u. bracketed (h = Some u) (proj u (A @ R))"
    proof
      fix u
      from br [of u] show "bracketed (h = Some u) (proj u (A @ R))"
        using p QPush by (auto simp: proj_Cons split: if_splits)
    qed
    with Cons.IH ok show ?thesis by blast
  next
    case (QPop x)
    with Cons.prems(1) p have ok: "sched_ok h (A @ R)" by auto
    have "\<forall>u. bracketed (h = Some u) (proj u (A @ R))"
    proof
      fix u
      from br [of u] show "bracketed (h = Some u) (proj u (A @ R))"
        using p QPop by (auto simp: proj_Cons split: if_splits)
    qed
    with Cons.IH ok show ?thesis by blast
  qed
qed

lemma critical_section_exclusive:
  assumes ok: "sched_ok None G" and br: "\<forall>u. bracketed False (proj u G)"
    and G: "G = A @ (t, MutexLock) # B @ (t, MutexUnlock) # C"
    and nu: "(t, MutexUnlock) \<notin> set B"
  shows "\<forall>p\<in>set B. fst p = t"
proof -
  let ?R = "(t, MutexLock) # B @ (t, MutexUnlock) # C"
  from ok br G have "sched_ok None (A @ ?R)" "\<forall>u. bracketed (None = Some u) (proj u (A @ ?R))"
    by simp_all
  from prefix_state [OF this]
  obtain h' where h': "sched_ok h' ?R" "\<forall>u. bracketed (h' = Some u) (proj u ?R)" by blast
  from h'(1) have hn: "h' = None" and ok': "sched_ok (Some t) (B @ (t, MutexUnlock) # C)" by auto
  have "\<forall>u. bracketed (u = t) (proj u (B @ (t, MutexUnlock) # C))"
  proof
    fix u
    from h'(2) hn have "bracketed False (proj u ?R)" by simp
    then show "bracketed (u = t) (proj u (B @ (t, MutexUnlock) # C))"
      by (auto simp: proj_Cons split: if_splits)
  qed
  from section_own [OF ok' this nu] show ?thesis .
qed

lemma events_push_multi:
  "events_of (push_multi xs) Q = [MutexLock] @ map QPush xs @ [CondSignal, MutexUnlock]"
  by (simp add: events_of_def push_multi_eq)

lemma bracketed_pushes: "bracketed True (map QPush xs @ es) = bracketed True es"
  by (induction xs) auto

theorem push_multi_atomic:
  "q (push_multi xs Q) = q Q @ xs \<and>
   mutex (push_multi xs Q) = mutex Q \<and> cond (push_multi xs Q) = cond Q \<and>
   skipDestructor (push_multi xs Q) = skipDestructor Q \<and>
   hist (push_multi xs Q) = hist Q @ events_of (push_multi xs) Q \<and>
   events_of (push_multi xs) Q = [MutexLock] @ map QPush xs @ [CondSignal, MutexUnlock] \<and>
   length (filter (\<lambda>e. e = CondSignal) (events_of (push_multi xs) Q)) = 1 \<and>
   bracketed False (events_of (push_multi xs) Q) \<and>
   (\<forall>G A B C t.
      sched_ok None G \<and> (\<forall>u. bracketed False (proj u G)) \<and>
      G = A @ (t, MutexLock) # B @ (t, MutexUnlock) # C \<and>
      proj t ((t, MutexLock) # B @ [(t, MutexUnlock)]) = events_of (push_multi xs) Q
      \<longrightarrow> B = map (Pair t) (map QPush xs @ [CondSignal]))"
proof -
  have ev: "events_of (push_multi xs) Q = [MutexLock] @ map QPush xs @ [CondSignal, MutexUnlock]"
    by (rule events_push_multi)
  have sig: "length (filter (\<lambda>e. e = CondSignal) (events_of (push_multi xs) Q)) = 1"
    unfolding ev by (induction xs) auto
  have br: "bracketed False (events_of (push_multi xs) Q)"
    unfolding ev by (simp add: bracketed_pushes)
  have at: "B = map (Pair t) (map QPush xs @ [CondSignal])"
    if ok: "sched_ok None G" and b: "\<forall>u. bracketed False (proj u G)"
      and G: "G = A @ (t, MutexLock) # B @ (t, MutexUnlock) # C"
      and pr: "proj t ((t, MutexLock) # B @ [(t, MutexUnlock)]) = events_of (push_multi xs) Q"
    for G :: "(tid \<times> 'a qevent) list" and A B C t
  proof -
    from pr have "proj t B @ [MutexUnlock] = (map QPush xs @ [CondSignal]) @ [MutexUnlock]"
      unfolding ev by (simp add: proj_Cons proj_append proj_def)
    then have pB: "proj t B = map QPush xs @ [CondSignal]"
      by (simp only: append1_eq_conv)
    have "(t, MutexUnlock) \<notin> set B"
    proof
      assume "(t, MutexUnlock) \<in> set B"
      then have "MutexUnlock \<in> set (proj t B)" by (force simp: proj_def)
      with pB show False by auto
    qed
    from critical_section_exclusive [OF ok b G this] have "B = map (Pair t) (proj t B)"
      by (rule proj_all)
    with pB show ?thesis by simp
  qed
  show ?thesis
    using ev sig br at by (simp add: push_multi_eq events_of_def) blast
qed

theorem push_multi_atomic_witness:
  "sched_ok None ([(2::nat, MutexLock), (2, QPop (3::nat)), (2, MutexUnlock)] @ (1, MutexLock) #
      [(1, QPush 5), (1, QPush 6), (1, CondSignal)] @ (1, MutexUnlock) # [(2, MutexLock), (2, MutexUnlock)]) \<and>
   (\<forall>u. bracketed False (proj u ([(2::nat, MutexLock), (2, QPop (3::nat)), (2, MutexUnlock)] @ (1, MutexLock) #
      [(1, QPush 5), (1, QPush 6), (1, CondSignal)] @ (1, MutexUnlock) # [(2, MutexLock), (2, MutexUnlock)]))) \<and>
   proj 1 ((1, MutexLock) # [(1, QPush 5), (1, QPush 6), (1, CondSignal)] @ [(1, MutexUnlock)])
     = events_of (push_multi [5, 6]) (ThreadMessageQueue_new 1 2 :: nat ThreadMessageQueue) \<and>
   [(1::nat, QPush 5), (1, QPush 6), (1, CondSignal)] = map (Pair 1) (map QPush [5, 6 :: nat] @ [CondSignal])"
proof -
  let ?Q = "ThreadMessageQueue_new 1 2 :: nat ThreadMessageQueue"
  let ?A = "[(2::nat, MutexLock), (2, QPop (3::nat)), (2, MutexUnlock)]"
  let ?B = "[(1::nat, QPush (5::nat)), (1, QPush 6), (1, CondSignal)]"
  let ?C = "[(2::nat, MutexLock :: nat qevent), (2, MutexUnlock)]"
  let ?G = "?A @ (1, MutexLock) # ?B @ (1, MutexUnlock) # ?C"
  have 1: "sched_ok None ?G" by simp
  have 2: "\<forall>u. bracketed False (proj u ?G)" by (simp add: proj_def)
  have 3: "proj 1 ((1, MutexLock) # ?B @ [(1, MutexUnlock)]) = events_of (push_multi [5, 6]) ?Q"
    by (simp add: proj_def events_of_def push_multi_eq)
  from push_multi_atomic [of "[5, 6]" ?Q]
  have "\<forall>G A B C t.
      sched_ok None G \<and> (\<forall>u. bracketed False (proj u G)) \<and>
      G = A @ (t, MutexLock) # B @ (t, MutexUnlock) # C \<and>
      proj t ((t, MutexLock) # B @ [(t, MutexUnlock)]) = events_of (push_multi [5, 6]) ?Q
      \<longrightarrow> B = map (Pair t) (map QPush [5, 6] @ [CondSignal])"
    by (elim conjE)
  with 1 2 3 have "?B = map (Pair 1) (map QPush [5, 6] @ [CondSignal])" by blast
  with 1 2 3 show ?thesis by blast
qed

section \<open>Properties of the MessageThread object\<close>

lemma funpow_end_mt: "(end_mt ^^ n) M = (if n = 0 then M else end_mt M)"
  by (induction n) (auto simp: end_mt_def)

text \<open>
  C3. On an active MessageThread \<open>end\<close> pushes one sentinel (one lock, one push, one signal,
  one unlock) and clears \<open>threadActive\<close>; on one that is not active it returns the object
  as it is. So a second \<open>end\<close> changes nothing, and any number \<open>n\<close> of consecutive calls
  append one sentinel if the object was active and \<open>n > 0\<close>, and nothing otherwise.
\<close>

theorem end_idempotent:
  "(threadActive M \<longrightarrow>
      end_mt M = M\<lparr>mt_q := push NULL (mt_q M), threadActive := False\<rparr> \<and>
      q (mt_q (end_mt M)) = q (mt_q M) @ [NULL] \<and>
      hist (mt_q (end_mt M)) = hist (mt_q M) @ [MutexLock, QPush NULL, CondSignal, MutexUnlock] \<and>
      \<not> threadActive (end_mt M)) \<and>
   (\<not> threadActive M \<longrightarrow> end_mt M = M) \<and>
   end_mt (end_mt M) = end_mt M \<and>
   (end_mt ^^ n) M = (if n = 0 then M else end_mt M) \<and>
   q (mt_q ((end_mt ^^ n) M)) = q (mt_q M) @ (if threadActive M \<and> 0 < n then [NULL] else [])"
  by (simp add: funpow_end_mt) (simp add: end_mt_def push_eq)

theorem end_idempotent_witness:
  "threadActive ((MessageThread_new 1 2)\<lparr>threadActive := True\<rparr>) \<and>
   q (mt_q (end_mt ((MessageThread_new 1 2)\<lparr>threadActive := True\<rparr>))) = [NULL] \<and>
   q (mt_q ((end_mt ^^ 3) ((MessageThread_new 1 2)\<lparr>threadActive := True\<rparr>))) = [NULL] \<and>
   \<not> threadActive (MessageThread_new 1 2) \<and>
   end_mt (MessageThread_new 1 2) = MessageThread_new 1 2"
  using end_idempotent [of "(MessageThread_new 1 2)\<lparr>threadActive := True\<rparr>" 3]
    end_idempotent [of "MessageThread_new 1 2" 3]
  by (simp add: MessageThread_new_def MessageThread_new_cb_def ThreadMessageQueue_new_def)

text \<open>
  C10. \<open>size\<close> and \<open>empty\<close> of a MessageThread read the queue, sentinel included: right
  after \<open>end\<close> on an active object, \<open>size\<close> is one more than the number of items that were
  queued, so at least 1, and \<open>empty\<close> is false; with no item queued the queue holds the
  sentinel alone and \<open>size\<close> is 1.
\<close>

theorem size_counts_sentinel:
  "threadActive M \<Longrightarrow>
     fst (size_mt (end_mt M)) = Suc (length (q (mt_q M))) \<and>
     1 \<le> fst (size_mt (end_mt M)) \<and>
     \<not> fst (empty_mt (end_mt M)) \<and>
     (q (mt_q M) = [] \<longrightarrow> q (mt_q (end_mt M)) = [NULL] \<and> fst (size_mt (end_mt M)) = 1)"
  by (simp add: size_mt_def empty_mt_def size_q_def empty_q_def end_mt_def push_eq Let_def mutex_lock_def)

theorem size_counts_sentinel_witness:
  "threadActive ((MessageThread_new 1 2)\<lparr>threadActive := True\<rparr>) \<and>
   q (mt_q ((MessageThread_new 1 2)\<lparr>threadActive := True\<rparr>)) = [] \<and>
   fst (size_mt (end_mt ((MessageThread_new 1 2)\<lparr>threadActive := True\<rparr>))) = 1 \<and>
   \<not> fst (empty_mt (end_mt ((MessageThread_new 1 2)\<lparr>threadActive := True\<rparr>)))"
proof -
  let ?M = "(MessageThread_new 1 2)\<lparr>threadActive := True\<rparr>"
  have a: "threadActive ?M" by simp
  have e: "q (mt_q ?M) = []"
    by (simp add: MessageThread_new_def MessageThread_new_cb_def ThreadMessageQueue_new_def)
  from size_counts_sentinel [OF a] a e show ?thesis by simp
qed

section \<open>Properties of the notification queue\<close>

lemma notified_drains:
  "q (tnq_q N) = xs \<Longrightarrow>
     \<exists>N'. notified junk N made = (N', made @ map (\<lambda>x. (tnq_o N, tnq_cb N, x)) xs) \<and>
          q (tnq_q N') = [] \<and> tnq_o N' = tnq_o N \<and> tnq_cb N' = tnq_cb N \<and> a_pending N' = a_pending N"
proof (induction xs arbitrary: N junk made)
  case Nil
  then show ?case
    by (subst notified.simps) (simp add: trypop_def Let_def mutex_lock_def mutex_unlock_def)
next
  case (Cons x xs)
  let ?Q' = "mutex_unlock (q_pop x xs (mutex_lock (tnq_q N)))"
  have tp: "trypop junk (tnq_q N) = (True, x, ?Q')"
    using Cons.prems by (simp add: trypop_def Let_def)
  have "q (tnq_q (N\<lparr>tnq_q := ?Q'\<rparr>)) = xs" by simp
  from Cons.IH [OF this, of x "made @ [(tnq_o N, tnq_cb N, x)]"]
  show ?case
    by (subst notified.simps) (simp add: tp)
qed

lemma fold_notify:
  "fold notify xs N = N\<lparr>tnq_q := fold push xs (tnq_q N), a_pending := (a_pending N \<or> xs \<noteq> [])\<rparr>"
  by (induction xs arbitrary: N) (auto simp: notify_def)

lemma q_fold_push: "q (fold push xs Q) = q Q @ xs"
  by (induction xs arbitrary: Q) (simp_all add: push_eq)

text \<open>
  C8. Starting from an empty internal queue, after the \<open>notify\<close> calls for the items
  \<open>xs\<close> (in that order) one run of \<open>notified\<close> invokes the bound method of the bound object
  once per item, in the order of the calls, so \<open>length xs\<close> times, and leaves the queue
  empty. \<open>notified\<close> is a total function: the run ends.
\<close>

theorem notified_delivers_all:
  "q (tnq_q N) = [] \<Longrightarrow>
     \<exists>N'. notified junk (fold notify xs N) made =
             (N', made @ map (\<lambda>x. (tnq_o N, tnq_cb N, x)) xs) \<and>
          q (tnq_q N') = [] \<and>
          length (snd (notified junk (fold notify xs N) made)) = length made + length xs"
proof -
  assume e: "q (tnq_q N) = []"
  have "q (tnq_q (fold notify xs N)) = xs"
    by (simp add: fold_notify q_fold_push e)
  from notified_drains [OF this, of junk made]
  show ?thesis by (auto simp: fold_notify)
qed

theorem notified_delivers_all_witness:
  "q (tnq_q (ThreadNotifyQueue_new 1 2 3 4)) = [] \<and>
   snd (notified 0 (fold notify [42, 7] (ThreadNotifyQueue_new 1 2 3 4)) []) = [(3, 4, 42), (3, 4, 7)] \<and>
   q (tnq_q (fst (notified 0 (fold notify [42, 7] (ThreadNotifyQueue_new 1 2 3 4)) []))) = []"
proof -
  let ?N = "ThreadNotifyQueue_new 1 2 3 4"
  have e: "q (tnq_q ?N) = []"
    by (simp add: ThreadNotifyQueue_new_def ThreadMessageQueue_new_def)
  from notified_delivers_all [OF e, of 0 "[42, 7]" "[]"]
  obtain N' where "notified 0 (fold notify [42, 7] ?N) [] =
      (N', [] @ map (\<lambda>x. (tnq_o ?N, tnq_cb ?N, x)) [42, 7])" and "q (tnq_q N') = []"
    by blast
  with e show ?thesis by (simp add: ThreadNotifyQueue_new_def)
qed

section \<open>The turns of the worker thread\<close>

lemmas run_defs = world_new_def MessageThread_new_cb_def MessageThread_new_def
  ThreadMessageQueue_new_def send_def send_multi_def start_def thread_create_def new_thread_def
  thread_join_def thread_func_step_def take_cb_def loop_round_def set_status_def
  pop_def push_def push_multi_def q_push_def q_pop_def
  mutex_lock_def mutex_unlock_def condvar_signal_def end_mt_def NULL_def Let_def

lemma loop_round_Ok:
  "loop_round t W = Ok W' \<longleftrightarrow>
     (\<exists>item rest. q (mt_q (obj W)) = item # rest \<and>
        (if item \<noteq> NULL
         then \<exists>f. tcb (threads W ! t) = Some (Some f) \<and>
                W' = W\<lparr>obj := (obj W)\<lparr>mt_q := mutex_unlock (q_pop item rest (mutex_lock (mt_q (obj W))))\<rparr>,
                       calls := calls W @ [(t, f, item)]\<rparr>
         else W' = set_status t Exited
                (W\<lparr>obj := (obj W)\<lparr>mt_q := mutex_unlock (q_pop item rest (mutex_lock (mt_q (obj W))))\<rparr>\<rparr>)))"
  by (cases "q (mt_q (obj W))")
     (auto simp: loop_round_def pop_def Let_def split: list.splits option.splits)

lemma loop_round_Blocks: "loop_round t W = Blocks \<longleftrightarrow> q (mt_q (obj W)) = []"
  by (cases "q (mt_q (obj W))")
     (auto simp: loop_round_def pop_def Let_def split: list.splits option.splits)

lemma obj_take_cb [simp]: "obj (take_cb t W) = obj W"
  by (simp add: take_cb_def)

lemma calls_take_cb [simp]: "calls (take_cb t W) = calls W"
  by (simp add: take_cb_def)

lemma length_take_cb [simp]: "length (threads (take_cb t W)) = length (threads W)"
  by (simp add: take_cb_def)

lemma status_take_cb [simp]:
  "i < length (threads W) \<Longrightarrow> status (threads (take_cb t W) ! i) = status (threads W ! i)"
  by (cases "i = t") (simp_all add: take_cb_def)

lemma tcb_take_cb [simp]:
  "t < length (threads W) \<Longrightarrow> tcb (threads (take_cb t W) ! t) = Some (cb (obj W))"
  by (simp add: take_cb_def)

lemma thread_func_step_Ok:
  "thread_func_step t W = Ok W' \<longleftrightarrow>
     t < length (threads W) \<and> status (threads W ! t) = Running \<and>
     (if tcb (threads W ! t) = None
      then q (mt_q (obj W)) = [] \<and> W' = take_cb t W \<or> loop_round t (take_cb t W) = Ok W'
      else loop_round t W = Ok W')"
proof (cases "t < length (threads W) \<and> status (threads W ! t) = Running")
  case False
  then show ?thesis by (auto simp: thread_func_step_def)
next
  case True
  show ?thesis
  proof (cases "tcb (threads W ! t)")
    case None
    from loop_round_Blocks [of t "take_cb t W"]
    have bl: "loop_round t (take_cb t W) = Blocks \<longleftrightarrow> q (mt_q (obj W)) = []" by simp
    from loop_round_Ok [of t "take_cb t W"]
    have ok: "loop_round t (take_cb t W) = Ok V \<Longrightarrow> q (mt_q (obj W)) \<noteq> []" for V by auto
    show ?thesis
      using True None bl ok
      by (cases "loop_round t (take_cb t W)") (auto simp: thread_func_step_def)
  next
    case (Some f)
    with True show ?thesis by (simp add: thread_func_step_def)
  qed
qed

lemma exec_append: "exec b (xs @ ys) W = rbind (exec b xs W) (exec b ys)"
proof (induction xs arbitrary: W)
  case Nil
  then show ?case by simp
next
  case (Cons a xs)
  then show ?case by (cases "step b a W") simp_all
qed

lemma rbind_exec_Nil: "rbind r (exec b []) = r"
  by (cases r) simp_all

lemma step_sentinel:
  assumes t: "t < length (threads W)" and r: "status (threads W ! t) = Running"
    and qq: "q (mt_q (obj W)) = NULL # rest"
  shows "\<exists>W'. thread_func_step t W = Ok W' \<and> status (threads W' ! t) = Exited \<and>
          length (threads W') = length (threads W) \<and> calls W' = calls W \<and>
          q (mt_q (obj W')) = rest \<and> thread_func_step t W' = Blocks"
proof -
  let ?Q = "mutex_unlock (q_pop NULL rest (mutex_lock (mt_q (obj W))))"
  have round: "loop_round t V = Ok (set_status t Exited (V\<lparr>obj := (obj V)\<lparr>mt_q := ?Q\<rparr>\<rparr>))"
    if "obj V = obj W" for V
    using that qq by (simp add: loop_round_def pop_def Let_def)
  show ?thesis
  proof (cases "tcb (threads W ! t)")
    case None
    let ?W' = "set_status t Exited ((take_cb t W)\<lparr>obj := (obj W)\<lparr>mt_q := ?Q\<rparr>\<rparr>)"
    from round [of "take_cb t W"] have "loop_round t (take_cb t W) = Ok ?W'" by simp
    with t r None have "thread_func_step t W = Ok ?W'" by (simp add: thread_func_step_def)
    moreover from t have "status (threads ?W' ! t) = Exited"
      "length (threads ?W') = length (threads W)" "calls ?W' = calls W" "q (mt_q (obj ?W')) = rest"
      "thread_func_step t ?W' = Blocks"
      by (simp_all add: set_status_def thread_func_step_def)
    ultimately show ?thesis by blast
  next
    case (Some f)
    let ?W' = "set_status t Exited (W\<lparr>obj := (obj W)\<lparr>mt_q := ?Q\<rparr>\<rparr>)"
    from round [of W] have "loop_round t W = Ok ?W'" by simp
    with t r Some have "thread_func_step t W = Ok ?W'" by (simp add: thread_func_step_def)
    moreover from t have "status (threads ?W' ! t) = Exited"
      "length (threads ?W') = length (threads W)" "calls ?W' = calls W" "q (mt_q (obj ?W')) = rest"
      "thread_func_step t ?W' = Blocks"
      by (simp_all add: set_status_def thread_func_step_def)
    ultimately show ?thesis by blast
  qed
qed

lemma step_item:
  assumes t: "t < length (threads W)" and r: "status (threads W ! t) = Running"
    and tc: "tcb (threads W ! t) = Some (Some f) \<or> tcb (threads W ! t) = None \<and> cb (obj W) = Some f"
    and qq: "q (mt_q (obj W)) = y # rest" and yn: "y \<noteq> NULL"
  shows "\<exists>W'. thread_func_step t W = Ok W' \<and> calls W' = calls W @ [(t, f, y)] \<and>
          q (mt_q (obj W')) = rest \<and> length (threads W') = length (threads W) \<and>
          status (threads W' ! t) = Running \<and> tcb (threads W' ! t) = Some (Some f)"
proof -
  let ?Q = "mutex_unlock (q_pop y rest (mutex_lock (mt_q (obj W))))"
  have round: "loop_round t V = Ok (V\<lparr>obj := (obj V)\<lparr>mt_q := ?Q\<rparr>, calls := calls V @ [(t, f, y)]\<rparr>)"
    if "obj V = obj W" "tcb (threads V ! t) = Some (Some f)" for V
    using that qq yn by (simp add: loop_round_def pop_def Let_def)
  from tc show ?thesis
  proof
    assume a: "tcb (threads W ! t) = Some (Some f)"
    let ?W' = "W\<lparr>obj := (obj W)\<lparr>mt_q := ?Q\<rparr>, calls := calls W @ [(t, f, y)]\<rparr>"
    from round [of W] a have "loop_round t W = Ok ?W'" by simp
    with t r a have "thread_func_step t W = Ok ?W'" by (simp add: thread_func_step_def)
    moreover from r a have "calls ?W' = calls W @ [(t, f, y)]" "q (mt_q (obj ?W')) = rest"
      "length (threads ?W') = length (threads W)" "status (threads ?W' ! t) = Running"
      "tcb (threads ?W' ! t) = Some (Some f)"
      by simp_all
    ultimately show ?thesis by blast
  next
    assume a: "tcb (threads W ! t) = None \<and> cb (obj W) = Some f"
    let ?V = "take_cb t W"
    let ?W' = "?V\<lparr>obj := (obj ?V)\<lparr>mt_q := ?Q\<rparr>, calls := calls ?V @ [(t, f, y)]\<rparr>"
    from t a have "tcb (threads ?V ! t) = Some (Some f)" by simp
    with round [of ?V] have "loop_round t ?V = Ok ?W'" by simp
    with t r a have "thread_func_step t W = Ok ?W'" by (simp add: thread_func_step_def)
    moreover from t r a have "calls ?W' = calls W @ [(t, f, y)]" "q (mt_q (obj ?W')) = rest"
      "length (threads ?W') = length (threads W)" "status (threads ?W' ! t) = Running"
      "tcb (threads ?W' ! t) = Some (Some f)"
      by simp_all
    ultimately show ?thesis by blast
  qed
qed

lemma drain_items:
  "t < length (threads W) \<Longrightarrow> status (threads W ! t) = Running \<Longrightarrow>
   tcb (threads W ! t) = Some (Some f) \<or> tcb (threads W ! t) = None \<and> cb (obj W) = Some f \<Longrightarrow>
   q (mt_q (obj W)) = ys @ rest \<Longrightarrow> NULL \<notin> set ys \<Longrightarrow>
   \<exists>W'. exec b (replicate (length ys) (Work t)) W = Ok W' \<and>
        calls W' = calls W @ map (\<lambda>y. (t, f, y)) ys \<and> q (mt_q (obj W')) = rest \<and>
        length (threads W') = length (threads W) \<and> status (threads W' ! t) = Running"
proof (induction ys arbitrary: W)
  case Nil
  then show ?case by (intro exI [of _ W]) simp
next
  case (Cons y ys)
  from Cons.prems have qq: "q (mt_q (obj W)) = y # (ys @ rest)" and yn: "y \<noteq> NULL"
    and nn: "NULL \<notin> set ys" by auto
  from step_item [OF Cons.prems(1,2,3) qq yn] obtain W1 where
    s1: "thread_func_step t W = Ok W1" and c1: "calls W1 = calls W @ [(t, f, y)]"
    and q1: "q (mt_q (obj W1)) = ys @ rest" and l1: "length (threads W1) = length (threads W)"
    and r1: "status (threads W1 ! t) = Running" and t1: "tcb (threads W1 ! t) = Some (Some f)"
    by blast
  from l1 Cons.prems(1) have lt: "t < length (threads W1)" by simp
  from t1 have tc1: "tcb (threads W1 ! t) = Some (Some f) \<or>
      tcb (threads W1 ! t) = None \<and> cb (obj W1) = Some f" by simp
  from Cons.IH [OF lt r1 tc1 q1 nn] obtain W' where
    e: "exec b (replicate (length ys) (Work t)) W1 = Ok W'"
    and c': "calls W' = calls W1 @ map (\<lambda>y. (t, f, y)) ys" and q': "q (mt_q (obj W')) = rest"
    and l': "length (threads W') = length (threads W1)" and r': "status (threads W' ! t) = Running"
    by blast
  show ?case
    using s1 e c' c1 q' l' l1 r' by (intro exI [of _ W']) simp
qed

section \<open>Delivery in order\<close>

lemma delivering_send:
  assumes d: "delivering cbk done False [] W" and s: "send b y W = Ok W'"
  shows "delivering cbk (done @ [y]) False [] W'"
proof (cases "done = []")
  case True
  with d have f: "threads W = []" "calls W = []" "q (mt_q (obj W)) = []" "\<not> threadActive (obj W)"
    "\<not> threadCreated (obj W)" "thread (obj W) = None" "cb (obj W) = Some cbk"
    by (simp_all add: delivering_def)
  from s f have W': "W' = W\<lparr>threads := [new_thread W],
       obj := (obj W)\<lparr>threadActive := True, threadCreated := True, thread := Some 0,
                     mt_q := push y (mt_q (obj W))\<rparr>\<rparr>"
    by (simp add: send_def start_def thread_create_def new_thread_def)
  have "\<exists>zs us th. [y] = zs @ us \<and> calls W' = map (\<lambda>x. (0, cbk, x)) zs \<and>
           threads W' = [th] \<and> (tcb th = None \<and> zs = [] \<or> tcb th = Some (Some cbk)) \<and>
           (status th = Running \<and> q (mt_q (obj W')) = us @ [] \<or>
            False \<and> status th = Exited \<and> us = [] \<and> q (mt_q (obj W')) = [])"
    apply (rule exI [of _ "[]"])
    apply (rule exI [of _ "[y]"])
    apply (rule exI [of _ "new_thread W"])
    using f by (simp add: W' new_thread_def)
  with f True show ?thesis
    by (simp add: delivering_def W')
next
  case False
  with d obtain zs us th where
    c: "cb (obj W) = Some cbk" "threadCreated (obj W)" "threadActive (obj W)" "thread (obj W) = Some 0"
    and z: "done = zs @ us" "calls W = map (\<lambda>x. (0, cbk, x)) zs" "threads W = [th]"
      "tcb th = None \<and> zs = [] \<or> tcb th = Some (Some cbk)"
      "status th = Running" "q (mt_q (obj W)) = us"
    by (auto simp: delivering_def)
  from s c have W': "W' = W\<lparr>obj := (obj W)\<lparr>mt_q := push y (mt_q (obj W))\<rparr>\<rparr>"
    by (simp add: send_def start_def)
  have "\<exists>zs' us' th'. done @ [y] = zs' @ us' \<and> calls W' = map (\<lambda>x. (0, cbk, x)) zs' \<and>
           threads W' = [th'] \<and> (tcb th' = None \<and> zs' = [] \<or> tcb th' = Some (Some cbk)) \<and>
           (status th' = Running \<and> q (mt_q (obj W')) = us' @ [] \<or>
            False \<and> status th' = Exited \<and> us' = [] \<and> q (mt_q (obj W')) = [])"
    apply (rule exI [of _ zs])
    apply (rule exI [of _ "us @ [y]"])
    apply (rule exI [of _ th])
    using z by (simp add: W')
  with c show ?thesis
    by (simp add: delivering_def W')
qed

lemma delivering_end:
  assumes d: "delivering cbk done False [] W"
  shows "delivering cbk done True [] (W\<lparr>obj := end_mt (obj W)\<rparr>)"
proof (cases "done = []")
  case True
  with d show ?thesis by (simp add: delivering_def end_mt_def)
next
  case False
  with d obtain zs us th where
    c: "cb (obj W) = Some cbk" "threadCreated (obj W)" "threadActive (obj W)" "thread (obj W) = Some 0"
    and z: "done = zs @ us" "calls W = map (\<lambda>x. (0, cbk, x)) zs" "threads W = [th]"
      "tcb th = None \<and> zs = [] \<or> tcb th = Some (Some cbk)"
      "status th = Running" "q (mt_q (obj W)) = us"
    by (auto simp: delivering_def)
  let ?W' = "W\<lparr>obj := end_mt (obj W)\<rparr>"
  have "\<exists>zs' us' th'. done = zs' @ us' \<and> calls ?W' = map (\<lambda>x. (0, cbk, x)) zs' \<and>
           threads ?W' = [th'] \<and> (tcb th' = None \<and> zs' = [] \<or> tcb th' = Some (Some cbk)) \<and>
           (status th' = Running \<and> q (mt_q (obj ?W')) = us' @ [NULL] \<or>
            status th' = Exited \<and> us' = [] \<and> q (mt_q (obj ?W')) = [])"
    apply (rule exI [of _ zs])
    apply (rule exI [of _ us])
    apply (rule exI [of _ th])
    using z c by (simp add: end_mt_def)
  with c False show ?thesis
    by (simp add: delivering_def end_mt_def)
qed

lemma delivering_push:
  assumes d: "delivering cbk done True after W"
  shows "delivering cbk done True (after @ [y])
           (W\<lparr>obj := (obj W)\<lparr>mt_q := push y (mt_q (obj W))\<rparr>\<rparr>)"
proof (cases "done = []")
  case True
  with d show ?thesis by (simp add: delivering_def)
next
  case False
  with d obtain zs us th where
    c: "cb (obj W) = Some cbk" "threadCreated (obj W)" "\<not> threadActive (obj W)" "thread (obj W) = Some 0"
    and z: "done = zs @ us" "calls W = map (\<lambda>x. (0, cbk, x)) zs" "threads W = [th]"
      "tcb th = None \<and> zs = [] \<or> tcb th = Some (Some cbk)"
    and alt: "status th = Running \<and> q (mt_q (obj W)) = us @ NULL # after
            \<or> status th = Exited \<and> us = [] \<and> q (mt_q (obj W)) = after"
    by (auto simp: delivering_def)
  let ?W' = "W\<lparr>obj := (obj W)\<lparr>mt_q := push y (mt_q (obj W))\<rparr>\<rparr>"
  have "\<exists>zs' us' th'. done = zs' @ us' \<and> calls ?W' = map (\<lambda>x. (0, cbk, x)) zs' \<and>
           threads ?W' = [th'] \<and> (tcb th' = None \<and> zs' = [] \<or> tcb th' = Some (Some cbk)) \<and>
           (status th' = Running \<and> q (mt_q (obj ?W')) = us' @ NULL # after @ [y] \<or>
            status th' = Exited \<and> us' = [] \<and> q (mt_q (obj ?W')) = after @ [y])"
    apply (rule exI [of _ zs])
    apply (rule exI [of _ us])
    apply (rule exI [of _ th])
    using z alt by auto
  with c False show ?thesis
    by (simp add: delivering_def)
qed

lemma delivering_take_cb:
  assumes d: "delivering cbk done ended after W" and t: "t < length (threads W)"
  shows "delivering cbk done ended after (take_cb t W)"
proof -
  from t d have ne: "done \<noteq> []" by (auto simp: delivering_def split: if_splits)
  with d obtain zs us th where
    c: "cb (obj W) = Some cbk" "threadCreated (obj W)" "threadActive (obj W) = (\<not> ended)"
      "thread (obj W) = Some 0"
    and z: "done = zs @ us" "calls W = map (\<lambda>x. (0, cbk, x)) zs" and th: "threads W = [th]"
    and alt: "status th = Running \<and> q (mt_q (obj W)) = us @ (if ended then NULL # after else [])
            \<or> ended \<and> status th = Exited \<and> us = [] \<and> q (mt_q (obj W)) = after"
    by (auto simp: delivering_def)
  from t th have t0: "t = 0" by simp
  let ?W' = "take_cb t W"
  have ths: "threads ?W' = [th\<lparr>tcb := Some (Some cbk)\<rparr>]"
    using th t0 c by (simp add: take_cb_def)
  have "\<exists>zs' us' th'. done = zs' @ us' \<and> calls ?W' = map (\<lambda>x. (0, cbk, x)) zs' \<and>
           threads ?W' = [th'] \<and> (tcb th' = None \<and> zs' = [] \<or> tcb th' = Some (Some cbk)) \<and>
           (status th' = Running \<and> q (mt_q (obj ?W')) = us' @ (if ended then NULL # after else [])
            \<or> ended \<and> status th' = Exited \<and> us' = [] \<and> q (mt_q (obj ?W')) = after)"
    apply (rule exI [of _ zs])
    apply (rule exI [of _ us])
    apply (rule exI [of _ "th\<lparr>tcb := Some (Some cbk)\<rparr>"])
    using z alt ths by auto
  with c ne show ?thesis
    by (simp add: delivering_def)
qed

lemma delivering_round:
  assumes d: "delivering cbk done ended after W" and nn: "NULL \<notin> set done"
    and t: "t < length (threads W)" and r: "status (threads W ! t) = Running"
    and s: "loop_round t W = Ok W'"
  shows "delivering cbk done ended after W'"
proof -
  from s obtain item rest where
    qq: "q (mt_q (obj W)) = item # rest" and
    W': "if item \<noteq> NULL
         then \<exists>f. tcb (threads W ! t) = Some (Some f) \<and>
                W' = W\<lparr>obj := (obj W)\<lparr>mt_q := mutex_unlock (q_pop item rest (mutex_lock (mt_q (obj W))))\<rparr>,
                       calls := calls W @ [(t, f, item)]\<rparr>
         else W' = set_status t Exited
                (W\<lparr>obj := (obj W)\<lparr>mt_q := mutex_unlock (q_pop item rest (mutex_lock (mt_q (obj W))))\<rparr>\<rparr>)"
    unfolding loop_round_Ok by blast
  from t d have ne: "done \<noteq> []" by (auto simp: delivering_def split: if_splits)
  with d obtain zs us th where
    c: "cb (obj W) = Some cbk" "threadCreated (obj W)" "threadActive (obj W) = (\<not> ended)"
      "thread (obj W) = Some 0"
    and z: "done = zs @ us" "calls W = map (\<lambda>x. (0, cbk, x)) zs" and th: "threads W = [th]"
    and tc: "tcb th = None \<and> zs = [] \<or> tcb th = Some (Some cbk)"
    and alt: "status th = Running \<and> q (mt_q (obj W)) = us @ (if ended then NULL # after else [])
            \<or> ended \<and> status th = Exited \<and> us = [] \<and> q (mt_q (obj W)) = after"
    by (auto simp: delivering_def)
  from t th have t0: "t = 0" by simp
  with r th alt have run: "status th = Running"
    and eq: "q (mt_q (obj W)) = us @ (if ended then NULL # after else [])"
    by auto
  show ?thesis
  proof (cases us)
    case Nil
    with eq qq have e: "ended" and i: "item = NULL" and ra: "rest = after"
      by (auto split: if_splits)
    from W' i t0 th have W'': "W' = (W\<lparr>obj := (obj W)\<lparr>mt_q := mutex_unlock (q_pop item rest (mutex_lock (mt_q (obj W))))\<rparr>\<rparr>)
        \<lparr>threads := [th\<lparr>status := Exited\<rparr>]\<rparr>"
      by (simp add: set_status_def)
    have "\<exists>zs' us' th'. done = zs' @ us' \<and> calls W' = map (\<lambda>x. (0, cbk, x)) zs' \<and>
           threads W' = [th'] \<and> (tcb th' = None \<and> zs' = [] \<or> tcb th' = Some (Some cbk)) \<and>
           (status th' = Running \<and> q (mt_q (obj W')) = us' @ (if ended then NULL # after else [])
            \<or> ended \<and> status th' = Exited \<and> us' = [] \<and> q (mt_q (obj W')) = after)"
      apply (rule exI [of _ zs])
      apply (rule exI [of _ "[]"])
      apply (rule exI [of _ "th\<lparr>status := Exited\<rparr>"])
      using z th tc e ra Nil by (simp add: W'')
    moreover have "cb (obj W') = Some cbk" "threadCreated (obj W')" "threadActive (obj W') = (\<not> ended)"
      "thread (obj W') = Some 0"
      using c by (simp_all add: W'')
    ultimately show ?thesis using ne by (simp add: delivering_def)
  next
    case (Cons u us')
    with eq qq have i: "item = u" and ra: "rest = us' @ (if ended then NULL # after else [])"
      by simp_all
    from z Cons nn i have inn: "item \<noteq> NULL" by auto
    from W' inn t0 th obtain f where tf: "tcb th = Some (Some f)"
      and Wf: "W' = W\<lparr>obj := (obj W)\<lparr>mt_q := mutex_unlock (q_pop item rest (mutex_lock (mt_q (obj W))))\<rparr>,
        calls := calls W @ [(0, f, item)]\<rparr>"
      by auto
    from tf tc have fc: "f = cbk" and tcb: "tcb th = Some (Some cbk)" by auto
    from Wf fc have W'': "W' = W\<lparr>obj := (obj W)\<lparr>mt_q := mutex_unlock (q_pop item rest (mutex_lock (mt_q (obj W))))\<rparr>,
        calls := calls W @ [(0, cbk, item)]\<rparr>"
      by simp
    have "\<exists>zs' us'' th'. done = zs' @ us'' \<and> calls W' = map (\<lambda>x. (0, cbk, x)) zs' \<and>
           threads W' = [th'] \<and> (tcb th' = None \<and> zs' = [] \<or> tcb th' = Some (Some cbk)) \<and>
           (status th' = Running \<and> q (mt_q (obj W')) = us'' @ (if ended then NULL # after else [])
            \<or> ended \<and> status th' = Exited \<and> us'' = [] \<and> q (mt_q (obj W')) = after)"
      apply (rule exI [of _ "zs @ [u]"])
      apply (rule exI [of _ us'])
      apply (rule exI [of _ th])
      using z th tcb run ra Cons i by (simp add: W'')
    moreover have "cb (obj W') = Some cbk" "threadCreated (obj W')" "threadActive (obj W') = (\<not> ended)"
      "thread (obj W') = Some 0"
      using c by (simp_all add: W'')
    ultimately show ?thesis using ne by (simp add: delivering_def)
  qed
qed

lemma delivering_work:
  assumes d: "delivering cbk done ended after W" and nn: "NULL \<notin> set done"
    and s: "thread_func_step t W = Ok W'"
  shows "delivering cbk done ended after W'"
proof -
  from s have t: "t < length (threads W)" and r: "status (threads W ! t) = Running"
    and alt: "if tcb (threads W ! t) = None
      then q (mt_q (obj W)) = [] \<and> W' = take_cb t W \<or> loop_round t (take_cb t W) = Ok W'
      else loop_round t W = Ok W'"
    unfolding thread_func_step_Ok by blast+
  show ?thesis
  proof (cases "tcb (threads W ! t) = None")
    case True
    from delivering_take_cb [OF d t] have d0: "delivering cbk done ended after (take_cb t W)" .
    from t r have t0: "t < length (threads (take_cb t W))"
      and r0: "status (threads (take_cb t W) ! t) = Running" by simp_all
    from True alt consider "W' = take_cb t W" | "loop_round t (take_cb t W) = Ok W'" by auto
    then show ?thesis
    proof cases
      case 1
      with d0 show ?thesis by simp
    next
      case 2
      from delivering_round [OF d0 nn t0 r0 2] show ?thesis .
    qed
  next
    case False
    with alt have "loop_round t W = Ok W'" by simp
    from delivering_round [OF d nn t r this] show ?thesis .
  qed
qed

lemma owner_calls_Cons:
  "owner_calls (a # sched) = (if is_work a then owner_calls sched else a # owner_calls sched)"
  by (simp add: owner_calls_def)

lemma run_delivering:
  "delivering cbk done ended after W \<Longrightarrow> exec b sched W = Ok W' \<Longrightarrow>
   owner_calls sched = map Send ys @ (if ended then [] else [End]) @ map Push ps \<Longrightarrow>
   (ended \<longrightarrow> ys = []) \<Longrightarrow> (\<not> ended \<longrightarrow> after = []) \<Longrightarrow> NULL \<notin> set (done @ ys) \<Longrightarrow>
   delivering cbk (done @ ys) True (after @ ps) W'"
proof (induction sched arbitrary: W "done" ys ended after ps)
  case Nil
  then have "ys = []" "ended" "ps = []" by (auto simp: owner_calls_def split: if_splits)
  with Nil show ?case by simp
next
  case (Cons a sched)
  from Cons.prems(2) obtain W1 where st: "step b a W = Ok W1" and ex: "exec b sched W1 = Ok W'"
    by (cases "step b a W") auto
  show ?case
  proof (cases "is_work a")
    case True
    then obtain t where a: "a = Work t" by (cases a) auto
    from Cons.prems(6) have nn: "NULL \<notin> set done" by simp
    from st a have "thread_func_step t W = Ok W1" by simp
    from delivering_work [OF Cons.prems(1) nn this] have d1: "delivering cbk done ended after W1" .
    from Cons.prems(3) True
    have oc: "owner_calls sched = map Send ys @ (if ended then [] else [End]) @ map Push ps"
      by (simp add: owner_calls_Cons)
    from Cons.IH [OF d1 ex oc Cons.prems(4) Cons.prems(5) Cons.prems(6)] show ?thesis .
  next
    case False
    with Cons.prems(3)
    have oc: "a # owner_calls sched = map Send ys @ (if ended then [] else [End]) @ map Push ps"
      by (simp add: owner_calls_Cons)
    show ?thesis
    proof (cases ys)
      case (Cons y ys')
      with Cons.prems(4) have ne: "\<not> ended" by auto
      with Cons.prems(5) have af: "after = []" by simp
      from oc Cons have a: "a = Send y" and
        oc': "owner_calls sched = map Send ys' @ (if ended then [] else [End]) @ map Push ps"
        by simp_all
      from st a have "send b y W = Ok W1" by simp
      moreover from Cons.prems(1) ne af have "delivering cbk done False [] W" by simp
      ultimately have "delivering cbk (done @ [y]) False [] W1" by (rule delivering_send [rotated])
      with ne af have d1: "delivering cbk (done @ [y]) ended after W1" by simp
      from ne have e': "ended \<longrightarrow> ys' = []" by simp
      from Cons.prems(6) Cons have nn: "NULL \<notin> set ((done @ [y]) @ ys')" by simp
      from Cons.IH [OF d1 ex oc' e' Cons.prems(5) nn] Cons show ?thesis by simp
    next
      case Nil
      show ?thesis
      proof (cases ended)
        case False
        with Cons.prems(5) have af: "after = []" by simp
        from oc Nil False have a: "a = End" and
          oc': "owner_calls sched = map Send [] @ (if True then [] else [End]) @ map Push ps"
          by simp_all
        from st a have W1: "W1 = W\<lparr>obj := end_mt (obj W)\<rparr>" by simp
        from Cons.prems(1) False af have "delivering cbk done False [] W" by simp
        from delivering_end [OF this] W1 af have d1: "delivering cbk done True after W1" by simp
        from Cons.prems(6) Nil have nn: "NULL \<notin> set (done @ [])" by simp
        from Cons.IH [OF d1 ex oc' _ _ nn] Nil show ?thesis by simp
      next
        case True
        with oc Nil obtain p ps' where ps: "ps = p # ps'" and a: "a = Push p"
          and oc': "owner_calls sched = map Send [] @ (if True then [] else [End]) @ map Push ps'"
          by (cases ps) auto
        from st a have W1: "W1 = W\<lparr>obj := (obj W)\<lparr>mt_q := push p (mt_q (obj W))\<rparr>\<rparr>" by simp
        from Cons.prems(1) True have "delivering cbk done True after W" by simp
        from delivering_push [OF this] W1 have d1: "delivering cbk done True (after @ [p]) W1"
          by simp
        from Cons.prems(6) Nil have nn: "NULL \<notin> set (done @ [])" by simp
        from Cons.IH [OF d1 ex oc' _ _ nn] Nil ps show ?thesis by simp
      qed
    qed
  qed
qed

lemma delivering_init:
  "delivering cbk [] False [] (world_new (MessageThread_new_cb m c (Some cbk)))"
  by (simp add: delivering_def world_new_def MessageThread_new_cb_def ThreadMessageQueue_new_def)

lemma delivering_final:
  assumes d: "delivering cbk xs True after W" and nn: "NULL \<notin> set xs"
  shows "calls W = map (\<lambda>x. (0, cbk, x)) (take (length (calls W)) xs) \<and>
    length (calls W) \<le> length xs \<and>
    (\<forall>e\<in>set (calls W). snd (snd e) \<noteq> NULL) \<and>
    length (threads W) \<le> 1 \<and>
    ((\<forall>th\<in>set (threads W). status th \<noteq> Running) \<longrightarrow>
       calls W = map (\<lambda>x. (0, cbk, x)) xs \<and> q (mt_q (obj W)) = after) \<and>
    (\<exists>k W'. k \<le> Suc (length xs) \<and> exec b (replicate k (Work 0)) W = Ok W' \<and>
       calls W' = map (\<lambda>x. (0, cbk, x)) xs \<and> length (calls W') = length xs \<and>
       q (mt_q (obj W')) = after \<and> (\<forall>th\<in>set (threads W'). status th = Exited) \<and>
       thread_func_step 0 W' = Blocks)"
proof (cases "xs = []")
  case True
  with d have f: "threads W = []" "calls W = []" "q (mt_q (obj W)) = after"
    by (simp_all add: delivering_def)
  have "exec b (replicate 0 (Work 0)) W = Ok W" by simp
  moreover from f have "thread_func_step 0 W = Blocks" by (simp add: thread_func_step_def)
  ultimately have "\<exists>k W'. k \<le> Suc (length xs) \<and> exec b (replicate k (Work 0)) W = Ok W' \<and>
       calls W' = map (\<lambda>x. (0, cbk, x)) xs \<and> length (calls W') = length xs \<and>
       q (mt_q (obj W')) = after \<and> (\<forall>th\<in>set (threads W'). status th = Exited) \<and>
       thread_func_step 0 W' = Blocks"
    using f True by (intro exI [of _ 0] exI [of _ W]) simp
  with f True show ?thesis by simp
next
  case False
  with d obtain zs us th where
    c: "cb (obj W) = Some cbk" and
    xs: "xs = zs @ us" and z: "calls W = map (\<lambda>x. (0, cbk, x)) zs" and th: "threads W = [th]"
    and tc: "tcb th = None \<and> zs = [] \<or> tcb th = Some (Some cbk)"
    and alt: "status th = Running \<and> q (mt_q (obj W)) = us @ NULL # after
            \<or> status th = Exited \<and> us = [] \<and> q (mt_q (obj W)) = after"
    by (auto simp: delivering_def)
  from xs nn have nz: "NULL \<notin> set zs" and nu: "NULL \<notin> set us" by auto
  from xs have tk: "take (length zs) xs = zs" by simp
  have pre: "calls W = map (\<lambda>x. (0, cbk, x)) (take (length (calls W)) xs)"
    using z tk by simp
  have len: "length (calls W) \<le> length xs" using z xs by simp
  have nonull: "\<forall>e\<in>set (calls W). snd (snd e) \<noteq> NULL" using z nz by auto
  have one: "length (threads W) \<le> 1" using th by simp
  from alt show ?thesis
  proof
    assume r: "status th = Running \<and> q (mt_q (obj W)) = us @ NULL # after"
    have t0: "0 < length (threads W)" "status (threads W ! 0) = Running"
      using th r by simp_all
    from r have qq: "q (mt_q (obj W)) = us @ NULL # after" by simp
    have tc0: "tcb (threads W ! 0) = Some (Some cbk) \<or>
        tcb (threads W ! 0) = None \<and> cb (obj W) = Some cbk"
      using th tc c by auto
    from drain_items [OF t0 tc0 qq nu, of b] obtain W1 where
      e1: "exec b (replicate (length us) (Work 0)) W = Ok W1"
      and c1: "calls W1 = calls W @ map (\<lambda>y. (0, cbk, y)) us"
      and q1: "q (mt_q (obj W1)) = NULL # after"
      and l1: "length (threads W1) = length (threads W)"
      and r1: "status (threads W1 ! 0) = Running" by blast
    from l1 t0 have lt1: "0 < length (threads W1)" by simp
    from step_sentinel [OF lt1 r1 q1] obtain W2 where
      e2: "thread_func_step 0 W1 = Ok W2" and s2: "status (threads W2 ! 0) = Exited"
      and l2: "length (threads W2) = length (threads W1)" and c2': "calls W2 = calls W1"
      and q2: "q (mt_q (obj W2)) = after" and b2: "thread_func_step 0 W2 = Blocks" by blast
    have rs: "replicate (Suc (length us)) (Work 0) = replicate (length us) (Work 0) @ [Work 0]"
      by (simp add: replicate_append_same)
    have "exec b (replicate (Suc (length us)) (Work 0)) W
            = rbind (exec b (replicate (length us) (Work 0)) W) (exec b [Work 0])"
      unfolding rs by (rule exec_append)
    with e1 e2 have e: "exec b (replicate (Suc (length us)) (Work 0)) W = Ok W2" by simp
    have c2: "calls W2 = map (\<lambda>x. (0, cbk, x)) xs"
      using z c1 c2' xs by simp
    have k: "Suc (length us) \<le> Suc (length xs)" using xs by simp
    from l2 l1 th have "length (threads W2) = 1" by simp
    then obtain x where "threads W2 = [x]" by (cases "threads W2") auto
    with s2 have ex: "\<forall>th\<in>set (threads W2). status th = Exited" by simp
    have live: "\<exists>k W'. k \<le> Suc (length xs) \<and> exec b (replicate k (Work 0)) W = Ok W' \<and>
       calls W' = map (\<lambda>x. (0, cbk, x)) xs \<and> length (calls W') = length xs \<and>
       q (mt_q (obj W')) = after \<and> (\<forall>th\<in>set (threads W'). status th = Exited) \<and>
       thread_func_step 0 W' = Blocks"
      apply (rule exI [of _ "Suc (length us)"])
      apply (rule exI [of _ W2])
      using k e c2 q2 b2 ex by (simp del: replicate_Suc)
    have notrun: "\<not> (\<forall>th\<in>set (threads W). status th \<noteq> Running)" using th r by simp
    from pre len nonull one notrun live show ?thesis by blast
  next
    assume x: "status th = Exited \<and> us = [] \<and> q (mt_q (obj W)) = after"
    have "exec b (replicate 0 (Work 0)) W = Ok W" by simp
    moreover from x th have "thread_func_step 0 W = Blocks" by (simp add: thread_func_step_def)
    ultimately have live: "\<exists>k W'. k \<le> Suc (length xs) \<and> exec b (replicate k (Work 0)) W = Ok W' \<and>
       calls W' = map (\<lambda>x. (0, cbk, x)) xs \<and> length (calls W') = length xs \<and>
       q (mt_q (obj W')) = after \<and> (\<forall>th\<in>set (threads W'). status th = Exited) \<and>
       thread_func_step 0 W' = Blocks"
      using x z th xs by (intro exI [of _ 0] exI [of _ W]) simp
    from x xs z have all: "calls W = map (\<lambda>x. (0, cbk, x)) xs" by simp
    from pre len nonull one live all x show ?thesis by blast
  qed
qed

text \<open>
  C1. Take any schedule from a newly constructed MessageThread in which the calls are
  \<open>send\<close> for the items \<open>xs\<close>, none of them \<open>NULL\<close>, in that order, and then \<open>end\<close>, with the
  turns of the worker interleaved in any way, and let \<open>W\<close> be the state it reaches. Then the
  invocations made so far are those of the first items of \<open>xs\<close>, in order, by thread 0 and
  with the callback of the object; none is of \<open>NULL\<close>; there is at most one thread; once no
  thread is running the invocations are exactly those of \<open>xs\<close>, one per item, and the queue
  is empty; and from \<open>W\<close> at most \<open>length xs + 1\<close> further turns of the worker end in that
  state, with the thread exited and taking no further turn. A running thread whose \<open>pop\<close>
  returns \<open>NULL\<close> exits at once, invokes nothing and leaves the rest of the queue untouched.
\<close>

theorem worker_delivers_in_order:
  assumes reach: "exec b sched (world_new (MessageThread_new_cb m c (Some cbk))) = Ok W"
    and oc: "owner_calls sched = map Send xs @ [End]"
    and nn: "NULL \<notin> set xs"
  shows "calls W = map (\<lambda>x. (0, cbk, x)) (take (length (calls W)) xs) \<and>
    length (calls W) \<le> length xs \<and>
    (\<forall>e\<in>set (calls W). snd (snd e) \<noteq> NULL) \<and>
    length (threads W) \<le> 1 \<and>
    ((\<forall>th\<in>set (threads W). status th \<noteq> Running) \<longrightarrow>
       calls W = map (\<lambda>x. (0, cbk, x)) xs \<and> q (mt_q (obj W)) = []) \<and>
    (\<exists>k W'. k \<le> Suc (length xs) \<and> exec b (replicate k (Work 0)) W = Ok W' \<and>
       calls W' = map (\<lambda>x. (0, cbk, x)) xs \<and> length (calls W') = length xs \<and>
       q (mt_q (obj W')) = [] \<and> (\<forall>th\<in>set (threads W'). status th = Exited) \<and>
       thread_func_step 0 W' = Blocks) \<and>
    (\<forall>V t rest. t < length (threads V) \<and> status (threads V ! t) = Running \<and>
       q (mt_q (obj V)) = NULL # rest \<longrightarrow>
       (\<exists>V'. thread_func_step t V = Ok V' \<and> status (threads V' ! t) = Exited \<and>
             calls V' = calls V \<and> q (mt_q (obj V')) = rest \<and> thread_func_step t V' = Blocks))"
proof -
  from oc have oc': "owner_calls sched = map Send xs @ (if False then [] else [End]) @ map Push []"
    by simp
  from nn have nn': "NULL \<notin> set ([] @ xs)" by simp
  from run_delivering [OF delivering_init reach oc' _ _ nn']
  have "delivering cbk xs True [] W" by simp
  from delivering_final [OF this nn, of b]
  have main: "calls W = map (\<lambda>x. (0, cbk, x)) (take (length (calls W)) xs) \<and>
    length (calls W) \<le> length xs \<and>
    (\<forall>e\<in>set (calls W). snd (snd e) \<noteq> NULL) \<and>
    length (threads W) \<le> 1 \<and>
    ((\<forall>th\<in>set (threads W). status th \<noteq> Running) \<longrightarrow>
       calls W = map (\<lambda>x. (0, cbk, x)) xs \<and> q (mt_q (obj W)) = []) \<and>
    (\<exists>k W'. k \<le> Suc (length xs) \<and> exec b (replicate k (Work 0)) W = Ok W' \<and>
       calls W' = map (\<lambda>x. (0, cbk, x)) xs \<and> length (calls W') = length xs \<and>
       q (mt_q (obj W')) = [] \<and> (\<forall>th\<in>set (threads W'). status th = Exited) \<and>
       thread_func_step 0 W' = Blocks)" .
  have stop: "\<exists>V'. thread_func_step t V = Ok V' \<and> status (threads V' ! t) = Exited \<and>
             calls V' = calls V \<and> q (mt_q (obj V')) = rest \<and> thread_func_step t V' = Blocks"
    if "t < length (threads V)" "status (threads V ! t) = Running" "q (mt_q (obj V)) = NULL # rest"
    for V t rest
    using step_sentinel [OF that] by blast
  from main stop show ?thesis by blast
qed


theorem worker_delivers_in_order_witness:
  "owner_calls [Send 5, Work 0, Send 6, End, Work 0, Work 0] = map Send [5, 6] @ [End] \<and>
   NULL \<notin> set [5, 6] \<and>
   (case exec StdThread [Send 5, Work 0, Send 6, End, Work 0, Work 0]
           (world_new (MessageThread_new_cb 1 2 (Some 9))) of
      Ok W \<Rightarrow> map status (threads W) = [Exited] \<and> calls W = [(0, 9, 5), (0, 9, 6)] \<and>
              q (mt_q (obj W)) = []
    | Blocks \<Rightarrow> False | Abort \<Rightarrow> False)"
proof -
  let ?S = "[Send 5, Work 0, Send 6, End, Work 0, Work 0]"
  let ?E = "exec StdThread ?S (world_new (MessageThread_new_cb 1 2 (Some 9)))"
  have oc: "owner_calls ?S = map Send [5, 6] @ [End]" by (simp add: owner_calls_def)
  have nn: "NULL \<notin> set [5, 6]" by (simp add: NULL_def)
  have "case ?E of Ok W \<Rightarrow> map status (threads W) = [Exited] | Blocks \<Rightarrow> False | Abort \<Rightarrow> False"
    by (simp add: run_defs)
  then obtain W where reach: "?E = Ok W" and ths: "map status (threads W) = [Exited]"
    by (cases ?E) auto
  from ths have nr: "\<forall>th\<in>set (threads W). status th \<noteq> Running" by auto
  from worker_delivers_in_order [OF reach oc nn] nr
  have "calls W = map (\<lambda>x. (0, 9, x)) [5, 6] \<and> q (mt_q (obj W)) = []" by blast
  with oc nn reach ths show ?thesis by simp
qed

section \<open>Restart\<close>

lemma start_frame:
  assumes "start b V = Ok V'"
  shows "mt_q (obj V') = mt_q (obj V) \<and> calls V' = calls V"
proof (cases "threadActive (obj V)")
  case True
  with assms show ?thesis by (simp add: start_def)
next
  case False
  let ?V1 = "V\<lparr>obj := (obj V)\<lparr>threadActive := True\<rparr>\<rparr>"
  from assms False obtain V2 where
    j: "(if threadCreated (obj ?V1) then thread_join b ?V1 else Ok ?V1) = Ok V2"
    and c: "thread_create b (V2\<lparr>obj := (obj V2)\<lparr>threadCreated := True\<rparr>\<rparr>) = Ok V'"
    by (cases "if threadCreated (obj ?V1) then thread_join b ?V1 else Ok ?V1")
       (auto simp: start_def Let_def)
  from j have "mt_q (obj V2) = mt_q (obj V) \<and> calls V2 = calls V"
    by (auto simp: thread_join_def set_status_def split: if_splits option.splits tstate.splits)
  moreover from c have "mt_q (obj V') = mt_q (obj V2) \<and> calls V' = calls V2"
    by (auto simp: thread_create_def split: if_splits)
  ultimately show ?thesis by simp
qed

text \<open>
  C9. \<open>end\<close> only appends to the queue (the sentinel, if the object was active) and
  \<open>start\<close> leaves the queue as it is. Take any schedule from a newly constructed
  MessageThread in which the calls are \<open>send\<close> for the items \<open>xs\<close>, then \<open>end\<close>, then the
  pushes of the items \<open>ys\<close> (the second half of sends that passed \<open>start\<close> before the
  \<open>end\<close>), with the worker's turns interleaved in any way, and then a \<open>start\<close> that
  returns; no item is \<open>NULL\<close>. When that \<open>start\<close> returns the queue holds exactly \<open>ys\<close>,
  the first worker has delivered exactly \<open>xs\<close>, one new thread runs, which has yet to take
  its copy of the callback the object holds, and \<open>length ys\<close> turns of the new thread
  deliver \<open>ys\<close>, in order, and empty the queue.
\<close>

theorem queue_survives_restart:
  assumes reach: "exec b (sched @ [Start]) (world_new (MessageThread_new_cb m c (Some cbk))) = Ok W"
    and oc: "owner_calls sched = map Send xs @ End # map Push ys"
    and nx: "NULL \<notin> set xs" and ny: "NULL \<notin> set ys"
  shows "(\<forall>M. q (mt_q (end_mt M)) = q (mt_q M) @ (if threadActive M then [NULL] else [])) \<and>
    (\<forall>V V'. start b V = Ok V' \<longrightarrow> mt_q (obj V') = mt_q (obj V)) \<and>
    q (mt_q (obj W)) = ys \<and>
    calls W = map (\<lambda>x. (0, cbk, x)) xs \<and>
    threads W \<noteq> [] \<and> status (last (threads W)) = Running \<and>
    tcb (last (threads W)) = None \<and> cb (obj W) = Some cbk \<and>
    unjoined W = 1 \<and>
    (\<exists>W'. exec b (replicate (length ys) (Work (length (threads W) - 1))) W = Ok W' \<and>
       calls W' = map (\<lambda>x. (0, cbk, x)) xs @ map (\<lambda>y. (length (threads W) - 1, cbk, y)) ys \<and>
       q (mt_q (obj W')) = [])"
proof -
  have f1: "\<forall>M. q (mt_q (end_mt M)) = q (mt_q M) @ (if threadActive M then [NULL] else [])"
    by (simp add: end_mt_def push_eq)
  have f2: "\<forall>V V'. start b V = Ok V' \<longrightarrow> mt_q (obj V') = mt_q (obj V)"
    using start_frame by blast
  let ?I = "world_new (MessageThread_new_cb m c (Some cbk))"
  from reach obtain W1 where e1: "exec b sched ?I = Ok W1" and st: "start b W1 = Ok W"
    by (cases "exec b sched ?I") (auto simp: exec_append rbind_exec_Nil)
  from oc have oc': "owner_calls sched = map Send xs @ (if False then [] else [End]) @ map Push ys"
    by simp
  from nx have nn': "NULL \<notin> set ([] @ xs)" by simp
  from run_delivering [OF delivering_init e1 oc' _ _ nn']
  have d: "delivering cbk xs True ys W1" by simp
  have core: "q (mt_q (obj W)) = ys \<and> calls W = map (\<lambda>x. (0, cbk, x)) xs \<and>
     threads W \<noteq> [] \<and> status (last (threads W)) = Running \<and>
     tcb (last (threads W)) = None \<and> cb (obj W) = Some cbk \<and> unjoined W = 1"
  proof (cases "xs = []")
    case True
    with d have f: "threads W1 = []" "calls W1 = []" "q (mt_q (obj W1)) = ys"
      "\<not> threadActive (obj W1)" "\<not> threadCreated (obj W1)" "thread (obj W1) = None"
      "cb (obj W1) = Some cbk"
      by (simp_all add: delivering_def)
    with st have "W = W1\<lparr>threads := [new_thread W1],
                 obj := (obj W1)\<lparr>threadActive := True, threadCreated := True, thread := Some 0\<rparr>\<rparr>"
      by (simp add: start_def thread_create_def new_thread_def)
    with f True show ?thesis by (simp add: new_thread_def unjoined_def)
  next
    case False
    with d obtain zs us th where
      xs: "xs = zs @ us" and z: "calls W1 = map (\<lambda>x. (0, cbk, x)) zs"
      and th: "threads W1 = [th]"
      and fl: "threadCreated (obj W1)" "\<not> threadActive (obj W1)" "cb (obj W1) = Some cbk"
        "thread (obj W1) = Some 0"
      and alt: "status th = Running \<and> q (mt_q (obj W1)) = us @ NULL # ys
            \<or> status th = Exited \<and> us = [] \<and> q (mt_q (obj W1)) = ys"
      by (auto simp: delivering_def)
    from st fl th have nb: "status th \<noteq> Running"
      by (auto simp: start_def Let_def thread_join_def)
    with alt have x: "status th = Exited" "us = []" "q (mt_q (obj W1)) = ys" by auto
    with st fl th have "W = W1\<lparr>threads := [th\<lparr>status := Joined\<rparr>, new_thread W1],
                   obj := (obj W1)\<lparr>threadActive := True, threadCreated := True,
                                  thread := Some 1\<rparr>\<rparr>"
      by (cases b)
         (simp_all add: start_def Let_def thread_join_def set_status_def thread_create_def
            new_thread_def)
    with x xs z fl show ?thesis by (simp add: new_thread_def unjoined_def)
  qed
  then have qy: "q (mt_q (obj W)) = ys @ []" and ne: "threads W \<noteq> []"
    and run: "status (last (threads W)) = Running" and tc: "tcb (last (threads W)) = None"
    and cbo: "cb (obj W) = Some cbk"
    and cs: "calls W = map (\<lambda>x. (0, cbk, x)) xs"
    by simp_all
  let ?t = "length (threads W) - 1"
  from ne have t: "?t < length (threads W)" by simp
  from ne have l: "threads W ! ?t = last (threads W)" by (simp add: last_conv_nth)
  from run l have r: "status (threads W ! ?t) = Running" by simp
  from tc cbo l have tc': "tcb (threads W ! ?t) = Some (Some cbk) \<or>
      tcb (threads W ! ?t) = None \<and> cb (obj W) = Some cbk" by simp
  from drain_items [OF t r tc' qy ny, of b] obtain W' where
    e: "exec b (replicate (length ys) (Work ?t)) W = Ok W'"
    and c': "calls W' = calls W @ map (\<lambda>y. (?t, cbk, y)) ys"
    and q': "q (mt_q (obj W')) = []" by blast
  have live: "\<exists>W'. exec b (replicate (length ys) (Work ?t)) W = Ok W' \<and>
       calls W' = map (\<lambda>x. (0, cbk, x)) xs @ map (\<lambda>y. (?t, cbk, y)) ys \<and>
       q (mt_q (obj W')) = []"
    apply (rule exI [of _ W'])
    using e c' q' cs by simp
  from f1 f2 core live show ?thesis by blast
qed

theorem queue_survives_restart_witness:
  "owner_calls [Send 5, End, Push 7, Work 0, Work 0] = map Send [5] @ End # map Push [7] \<and>
   NULL \<notin> set [5] \<and> NULL \<notin> set [7] \<and>
   (case exec StdThread ([Send 5, End, Push 7, Work 0, Work 0] @ [Start])
           (world_new (MessageThread_new_cb 1 2 (Some 9))) of
      Ok W \<Rightarrow> map status (threads W) = [Joined, Running] \<and> q (mt_q (obj W)) = [7] \<and>
              calls W = [(0, 9, 5)] \<and>
              (case exec StdThread [Work 1] W of
                 Ok W' \<Rightarrow> calls W' = [(0, 9, 5), (1, 9, 7)] \<and> q (mt_q (obj W')) = []
               | Blocks \<Rightarrow> False | Abort \<Rightarrow> False)
    | Blocks \<Rightarrow> False | Abort \<Rightarrow> False)"
proof -
  let ?S = "[Send 5, End, Push 7, Work 0, Work 0]"
  let ?E = "exec StdThread (?S @ [Start]) (world_new (MessageThread_new_cb 1 2 (Some 9)))"
  have oc: "owner_calls ?S = map Send [5] @ End # map Push [7]" by (simp add: owner_calls_def)
  have nx: "NULL \<notin> set [5]" and ny: "NULL \<notin> set [7]" by (simp_all add: NULL_def)
  have "case ?E of Ok W \<Rightarrow> map status (threads W) = [Joined, Running]
          | Blocks \<Rightarrow> False | Abort \<Rightarrow> False"
    by (simp add: run_defs)
  then obtain W where reach: "?E = Ok W" and ths: "map status (threads W) = [Joined, Running]"
    by (cases ?E) auto
  from ths have len: "length (threads W) - 1 = 1" by (cases "threads W") auto
  from queue_survives_restart [OF reach oc nx ny] len
  obtain W' where "q (mt_q (obj W)) = [7]" "calls W = map (\<lambda>x. (0, 9, x)) [5]"
    "exec StdThread (replicate (length [7 :: nat]) (Work 1)) W = Ok W'"
    "calls W' = map (\<lambda>x. (0, 9, x)) [5] @ map (\<lambda>y. (1, 9, y)) [7]"
    "q (mt_q (obj W')) = []"
    by auto
  with oc nx ny reach ths show ?thesis by simp
qed

section \<open>Move-assignment onto an object that has been used\<close>

text \<open>
  C4. An object is constructed, started and ended, and its worker pops the sentinel and
  exits: no thread is inside the queue any more, and the object still holds the handle of
  the exited thread, which nobody has joined. A move-assignment onto this object then
  transfers nothing in the standard-library build: \<^verbatim>\<open>thread = std::move(other.thread)\<close>
  assigns to a \<^verbatim>\<open>std::thread\<close> that is still joinable, which calls \<^verbatim>\<open>std::terminate\<close>.
  The libuv branch of the same \<open>move\<close> completes on the same input; it overwrites the
  handle and both flags, so that the exited thread can no longer be joined.
\<close>

theorem move_assign_onto_ended_object:
  "(case exec StdThread [Start, End, Work 0] (world_new (MessageThread_new_cb 3 4 (Some 8))) of
      Ok W \<Rightarrow>
        map status (threads W) = [Exited] \<and> q (mt_q (obj W)) = [] \<and> thread (obj W) = Some 0 \<and>
        \<not> threadActive (obj W) \<and> threadCreated (obj W) \<and>
        move_mt StdThread (obj W) (MessageThread_new_cb 1 2 (Some 9)) = Abort
    | Blocks \<Rightarrow> False | Abort \<Rightarrow> False) \<and>
   exec StdThread [Start, End, Work 0, MoveAssign 1 2 (Some 9)]
     (world_new (MessageThread_new_cb 3 4 (Some 8))) = Abort \<and>
   (case exec LibUV [Start, End, Work 0, MoveAssign 1 2 (Some 9)]
           (world_new (MessageThread_new_cb 3 4 (Some 8))) of
      Ok W \<Rightarrow>
        map status (threads W) = [Exited] \<and> q (mt_q (obj W)) = [] \<and>
        mutex (mt_q (obj W)) = Some 1 \<and> cond (mt_q (obj W)) = Some 2 \<and> cb (obj W) = Some 9 \<and>
        \<not> threadActive (obj W) \<and> \<not> threadCreated (obj W)
    | Blocks \<Rightarrow> False | Abort \<Rightarrow> False)"
  by (simp add: run_defs move_mt_def move_q_def)

text \<open>
  C5. An object is constructed, started and ended, and its worker pops the sentinel and
  exits. A \<open>start\<close> now joins that thread before it creates the next one: one thread is
  joined, one runs. In the libuv build, if a newly constructed object is move-assigned
  onto the object first, \<open>move\<close> overwrites \<^verbatim>\<open>threadCreated\<close> with \<open>false\<close> and the very
  same \<open>start\<close> creates the second thread without joining the first, which is never
  joined: the object has two unjoined threads.
\<close>

theorem start_after_move_assign:
  "(case exec LibUV [Start, End, Work 0, Start]
           (world_new (MessageThread_new_cb 3 4 (Some 8))) of
      Ok W \<Rightarrow> map status (threads W) = [Joined, Running] \<and> unjoined W = 1
    | Blocks \<Rightarrow> False | Abort \<Rightarrow> False) \<and>
   (case exec LibUV [Start, End, Work 0, MoveAssign 1 2 (Some 9)]
           (world_new (MessageThread_new_cb 3 4 (Some 8))) of
      Ok W \<Rightarrow> map status (threads W) = [Exited] \<and> \<not> threadActive (obj W) \<and>
              \<not> threadCreated (obj W) \<and> q (mt_q (obj W)) = []
    | Blocks \<Rightarrow> False | Abort \<Rightarrow> False) \<and>
   (case exec LibUV [Start, End, Work 0, MoveAssign 1 2 (Some 9), Start]
           (world_new (MessageThread_new_cb 3 4 (Some 8))) of
      Ok W \<Rightarrow> map status (threads W) = [Exited, Running] \<and> unjoined W = 2 \<and>
              threadActive (obj W) \<and> threadCreated (obj W) \<and> thread (obj W) = Some 1
    | Blocks \<Rightarrow> False | Abort \<Rightarrow> False)"
  by (simp add: run_defs move_mt_def move_q_def unjoined_def)


end
